theory Spec2Isabelle
  imports
    Complex_Main
    "HOL-Library.Multiset"
    "HOL-Library.List_Lexorder"
    "HOL-Library.Char_ord"
begin

section \<open>Python values and library routines used by \<open>analyze_brain_data.py\<close>\<close>

text \<open>
  Exceptions of the Python run that the modelled functions can raise.  Every raise of the
  source is a value \<open>Inl e\<close> of the result type \<open>py_error + 'a\<close>.
\<close>

datatype py_error = ValueError | IndexError | OverflowError

text \<open>
  \<open>xs.index(x)\<close> of a Python list: the position of the first element equal to \<open>x\<close>,
  \<open>ValueError\<close> when there is none.
\<close>

fun list_index :: "'a list \<Rightarrow> 'a \<Rightarrow> py_error + nat" where
  "list_index [] x = Inl ValueError"
| "list_index (y # ys) x =
     (if y = x then Inr 0
      else (case list_index ys x of Inl e \<Rightarrow> Inl e | Inr i \<Rightarrow> Inr (Suc i)))"

text \<open>
  \<open>itertools.groupby\<close> without a key function, read off as a list: one pair
  \<open>(key, group)\<close> for every maximal run of consecutive equal elements.
\<close>

function groupby :: "'a list \<Rightarrow> ('a \<times> 'a list) list" where
  "groupby [] = []"
| "groupby (x # xs) =
     (x, x # takeWhile (\<lambda>y. y = x) xs) # groupby (dropWhile (\<lambda>y. y = x) xs)"
  by pat_completeness auto
termination
  by (relation "measure length") (auto simp: length_dropWhile_le less_Suc_eq_le)

text \<open>
  The sort key of \<open>classify\<close> is a Python tuple of two integers; tuples compare
  lexicographically.
\<close>

type_synonym sort_key = "int \<times> int"

definition tuple_less :: "sort_key \<Rightarrow> sort_key \<Rightarrow> bool" where
  "tuple_less a b \<longleftrightarrow> fst a < fst b \<or> (fst a = fst b \<and> snd a < snd b)"

text \<open>
  The builtin \<open>max(iterable, key=f)\<close>: the key of every item is computed as the item
  is drawn, the running maximum is replaced only by a strictly greater key (so the first
  of several maximal items is returned), and an empty iterable raises \<open>ValueError\<close>.
\<close>

fun max_loop :: "('x \<Rightarrow> py_error + sort_key) \<Rightarrow> 'x \<Rightarrow> sort_key \<Rightarrow> 'x list \<Rightarrow> py_error + 'x" where
  "max_loop key maxitem maxval [] = Inr maxitem"
| "max_loop key maxitem maxval (item # items) =
     (case key item of
        Inl e \<Rightarrow> Inl e
      | Inr val \<Rightarrow>
          if tuple_less maxval val then max_loop key item val items
          else max_loop key maxitem maxval items)"

definition py_max :: "('x \<Rightarrow> py_error + sort_key) \<Rightarrow> 'x list \<Rightarrow> py_error + 'x" where
  "py_max key items =
     (case items of
        [] \<Rightarrow> Inl ValueError
      | item # rest \<Rightarrow>
          (case key item of Inl e \<Rightarrow> Inl e | Inr val \<Rightarrow> max_loop key item val rest))"

section \<open>Majority classification: \<open>classify\<close>\<close>

text \<open>
  \<^verbatim>\<open>
  def classify(sorted_neighbors):
      sorted_neighbors = sorted_neighbors.tolist()
      return max(g(sorted(sorted_neighbors)),
                 key=lambda xv:(len(list(xv[1])),-sorted_neighbors.index(xv[0])))[0]
  \<close>
  \<open>classify_key\<close> is the lambda; \<open>sort\<close> is the (stable) \<open>sorted\<close>.
\<close>

definition classify_key :: "'a list \<Rightarrow> 'a \<times> 'a list \<Rightarrow> py_error + sort_key" where
  "classify_key sorted_neighbors xv =
     (case list_index sorted_neighbors (fst xv) of
        Inl e \<Rightarrow> Inl e
      | Inr i \<Rightarrow> Inr (int (length (snd xv)), - int i))"

definition classify :: "'a::linorder list \<Rightarrow> py_error + 'a" where
  "classify sorted_neighbors =
     (case py_max (classify_key sorted_neighbors) (groupby (sort sorted_neighbors)) of
        Inl e \<Rightarrow> Inl e
      | Inr xv \<Rightarrow> Inr (fst xv))"

section \<open>NumPy arrays and floats\<close>

text \<open>
  A float is modelled by the rational number it denotes, or one of the special values.
  Arithmetic on \<open>Finite\<close> values is exact in the model (rounding is not modelled); the
  comparisons and the special values \<open>nan\<close> and \<open>inf\<close> behave as in the program.
\<close>

datatype npfloat = Finite rat | PosInf | NegInf | NaN

text \<open>
  Division of a float array element by a scalar.  NumPy does not raise on a zero
  divisor: it warns and yields \<open>nan\<close> for \<open>0/0\<close> and an infinity otherwise.
\<close>

definition np_div :: "rat \<Rightarrow> rat \<Rightarrow> npfloat" where
  "np_div x y =
     (if y \<noteq> 0 then Finite (x / y)
      else if x = 0 then NaN
      else if 0 < x then PosInf else NegInf)"

text \<open>\<open>c * x\<close>, a positive Python number times a float.\<close>

definition float_times :: "rat \<Rightarrow> npfloat \<Rightarrow> npfloat" where
  "float_times c x = (case x of Finite r \<Rightarrow> Finite (c * r) | PosInf \<Rightarrow> PosInf | NegInf \<Rightarrow> NegInf | NaN \<Rightarrow> NaN)"

text \<open>
  \<open>math.floor\<close> raises \<open>ValueError\<close> on \<open>nan\<close> and \<open>OverflowError\<close> on an infinity.
\<close>

definition math_floor :: "npfloat \<Rightarrow> py_error + int" where
  "math_floor x =
     (case x of
        Finite r \<Rightarrow> Inr \<lfloor>r\<rfloor>
      | NaN \<Rightarrow> Inl ValueError
      | PosInf \<Rightarrow> Inl OverflowError
      | NegInf \<Rightarrow> Inl OverflowError)"

text \<open>\<open>np.mean\<close> of a one-dimensional float array; the mean of an empty array is \<open>nan\<close>.\<close>

definition np_mean :: "rat list \<Rightarrow> npfloat" where
  "np_mean xs = np_div (sum_list xs) (of_nat (length xs))"

text \<open>
  Addition of floats and \<open>np.sum\<close> of a float array; the sum of an empty array is 0.
\<close>

fun float_add :: "npfloat \<Rightarrow> npfloat \<Rightarrow> npfloat" where
  "float_add (Finite a) (Finite b) = Finite (a + b)"
| "float_add NaN y = NaN"
| "float_add x NaN = NaN"
| "float_add PosInf NegInf = NaN"
| "float_add NegInf PosInf = NaN"
| "float_add PosInf y = PosInf"
| "float_add x PosInf = PosInf"
| "float_add NegInf y = NegInf"
| "float_add x NegInf = NegInf"

definition np_sum :: "npfloat list \<Rightarrow> npfloat" where
  "np_sum xs = foldl float_add (Finite 0) xs"

text \<open>
  \<open>a[idx]\<close> for an array \<open>a\<close> and a sequence \<open>idx\<close> of non-negative row numbers:
  the selected elements in the order of \<open>idx\<close>, \<open>IndexError\<close> when a number is out of
  bounds.
\<close>

definition np_take :: "'a list \<Rightarrow> nat list \<Rightarrow> py_error + 'a list" where
  "np_take a idx =
     (if \<forall>i \<in> set idx. i < length a then Inr (map (\<lambda>i. a ! i) idx) else Inl IndexError)"

text \<open>\<open>np.unique\<close> and \<open>np.union1d\<close>: the sorted distinct elements.\<close>

definition np_unique :: "'a::linorder list \<Rightarrow> 'a list" where
  "np_unique xs = sort (remdups xs)"

definition np_union1d :: "'a::linorder list \<Rightarrow> 'a list \<Rightarrow> 'a list" where
  "np_union1d a b = np_unique (a @ b)"

text \<open>
  \<open>np.argsort(a)\<close> is a routine of the NumPy library; the program calls it with the
  default \<open>kind\<close>, for which the library promises an index array that is a permutation of
  the row numbers and lists the elements of \<open>a\<close> in ascending order, and nothing about the
  relative order of equal elements.  The index array is therefore an input of the
  modelled functions, and \<open>argsort_result a idx\<close> says that \<open>idx\<close> is a possible result
  of \<open>np.argsort(a)\<close>.
\<close>

definition index_permutation :: "nat list \<Rightarrow> nat \<Rightarrow> bool" where
  "index_permutation idx n \<longleftrightarrow> mset idx = mset [0..<n]"

definition argsort_result :: "'a::linorder list \<Rightarrow> nat list \<Rightarrow> bool" where
  "argsort_result a idx \<longleftrightarrow> index_permutation idx (length a) \<and> sorted (map (\<lambda>i. a ! i) idx)"

text \<open>The ranking a stable sort would give: equal elements keep their row order.\<close>

definition stable_argsort :: "'a::linorder list \<Rightarrow> nat list" where
  "stable_argsort a = sort_key (\<lambda>i. a ! i) [0..<length a]"

section \<open>Per-query statistics\<close>

text \<open>
  \<^verbatim>\<open>
  def nearest_dist_to_each_type(distances, labels):
      min_distances = {}
      for dist, label in zip(distances, labels):
          if label not in min_distances:
              min_distances[label] = dist
      return min_distances
  \<close>
  The dictionary is an association list in insertion order.
\<close>

definition nearest_dist_step :: "('l \<times> 'd) list \<Rightarrow> 'd \<times> 'l \<Rightarrow> ('l \<times> 'd) list" where
  "nearest_dist_step min_distances dl =
     (case dl of (dst, label) \<Rightarrow>
        if label \<notin> fst ` set min_distances then min_distances @ [(label, dst)]
        else min_distances)"

definition nearest_dist_to_each_type :: "'d list \<Rightarrow> 'l list \<Rightarrow> ('l \<times> 'd) list" where
  "nearest_dist_to_each_type distances labels =
     foldl nearest_dist_step [] (zip distances labels)"

text \<open>
  One iteration of the loop over the rows of the distance matrix in \<open>main\<close>
  (\<open>for index, distances_to_query in enumerate(dist_model)\<close>).  Its inputs are the
  identifier \<open>rpkm_df.index[index]\<close> of the query, its distance row, the index array
  returned by \<open>np.argsort(distances_to_query)\<close>, and the database labels and cell
  identifiers.  \<open>counts[k]\<close> of a \<open>Counter\<close> is \<open>count_list\<close>, which is 0 for an
  absent key.
\<close>

record query_stats =
  top_5_nearest_cells :: "string list"
  brain_cortex_in_top_1 :: bool
  brain_cortex_in_top_5 :: bool
  brain_cortex_in_top_10 :: bool
  brain_cortex_in_top_100 :: bool
  brain_cortex_counts :: "string \<times> int \<times> int"
  min_distances :: "(string \<times> rat) list"
  top_5_types :: "string list"
  avg_top_5_distances :: npfloat
  classified_label :: string

definition brain :: string where "brain = ''UBERON:0000955 brain''"
definition cortex :: string where "cortex = ''UBERON:0001851 cortex''"
definition bone_marrow_cell :: string where "bone_marrow_cell = ''CL:0002092 bone marrow cell''"
definition osteocyte :: string where "osteocyte = ''CL:0000137 osteocyte''"

definition query_row ::
  "string \<Rightarrow> rat list \<Rightarrow> nat list \<Rightarrow> string list \<Rightarrow> string list \<Rightarrow> py_error + query_stats" where
  "query_row sample_id distances_to_query sorted_distances_indices db_labels db_cell_ids =
     (case np_take distances_to_query sorted_distances_indices of Inl e \<Rightarrow> Inl e
      | Inr sorted_distances \<Rightarrow>
     (case np_take db_labels sorted_distances_indices of Inl e \<Rightarrow> Inl e
      | Inr sorted_labels \<Rightarrow>
     (case np_take db_cell_ids sorted_distances_indices of Inl e \<Rightarrow> Inl e
      | Inr sorted_cell_ids \<Rightarrow>
     (if sorted_labels = [] then Inl IndexError
      else
        let top_5_l = take 5 sorted_labels;
            top_10_l = take 10 sorted_labels;
            top_100_l = take 100 sorted_labels;
            counts = count_list (take 100 sorted_labels)
        in (case classify (take 100 sorted_labels) of Inl e \<Rightarrow> Inl e
            | Inr label \<Rightarrow>
              Inr \<lparr> top_5_nearest_cells = take 5 sorted_cell_ids,
                    brain_cortex_in_top_1 = (sorted_labels ! 0 = brain \<or> sorted_labels ! 0 = cortex),
                    brain_cortex_in_top_5 = (brain \<in> set top_5_l \<or> cortex \<in> set top_5_l),
                    brain_cortex_in_top_10 = (brain \<in> set top_10_l \<or> cortex \<in> set top_10_l),
                    brain_cortex_in_top_100 = (brain \<in> set top_100_l \<or> cortex \<in> set top_100_l),
                    brain_cortex_counts =
                      (sample_id, int (counts brain) + int (counts cortex),
                       int (counts bone_marrow_cell) + int (counts osteocyte)),
                    min_distances = nearest_dist_to_each_type sorted_distances sorted_labels,
                    top_5_types = take 5 sorted_labels,
                    avg_top_5_distances = np_mean (take 5 sorted_distances),
                    classified_label = label \<rparr>)))))"

section \<open>Enrichment selection: \<open>enriched_brain_cortex_plot_and_data\<close>\<close>

text \<open>
  \<^verbatim>\<open>
  keep = []
  with open(join(working_dir, "brain_cortex_nearest_hits.txt"), 'w') as f:
      for item in count_list:
          if item[1] > threshold:
              keep.append(item[0])
              f.write("{}:\n".format(item[0]))
              f.write("\t{}\n\t{}\n\t{}\n\t{}\n\t{}\n".format(
                  top_5_nearest_cells_d[item[0]][0], ..., top_5_nearest_cells_d[item[0]][4]))
  return keep
  \<close>
  The model returns \<open>keep\<close> together with the strings written to the report file.
  \<open>top_5_nearest_cells_d\<close> is a \<open>defaultdict(list)\<close>: an absent key reads as the empty
  list.  Reading position 0 to 4 of a shorter list raises \<open>IndexError\<close>.
\<close>

definition list_get :: "'a list \<Rightarrow> nat \<Rightarrow> py_error + 'a" where
  "list_get xs i = (if i < length xs then Inr (xs ! i) else Inl IndexError)"

definition defaultdict_get :: "('k \<rightharpoonup> 'v list) \<Rightarrow> 'k \<Rightarrow> 'v list" where
  "defaultdict_get d k = (case d k of None \<Rightarrow> [] | Some v \<Rightarrow> v)"

definition tab :: string where "tab = [CHR 0x09]"
definition newline :: string where "newline = [CHR 0x0A]"

definition header_line :: "string \<Rightarrow> string" where
  "header_line sample_id = sample_id @ '':'' @ newline"

definition hits_lines :: "string list \<Rightarrow> py_error + string" where
  "hits_lines cells =
     (case list_get cells 0 of Inl e \<Rightarrow> Inl e | Inr c0 \<Rightarrow>
     (case list_get cells 1 of Inl e \<Rightarrow> Inl e | Inr c1 \<Rightarrow>
     (case list_get cells 2 of Inl e \<Rightarrow> Inl e | Inr c2 \<Rightarrow>
     (case list_get cells 3 of Inl e \<Rightarrow> Inl e | Inr c3 \<Rightarrow>
     (case list_get cells 4 of Inl e \<Rightarrow> Inl e | Inr c4 \<Rightarrow>
        Inr (tab @ c0 @ newline @ tab @ c1 @ newline @ tab @ c2 @ newline
             @ tab @ c3 @ newline @ tab @ c4 @ newline))))))"

fun enriched_loop ::
  "(string \<rightharpoonup> string list) \<Rightarrow> int \<Rightarrow> string list \<Rightarrow> string list \<Rightarrow>
   (string \<times> int \<times> int) list \<Rightarrow> py_error + (string list \<times> string list)" where
  "enriched_loop top_5_nearest_cells_d threshold keep f [] = Inr (keep, f)"
| "enriched_loop top_5_nearest_cells_d threshold keep f (item # items) =
     (if fst (snd item) > threshold then
        (case hits_lines (defaultdict_get top_5_nearest_cells_d (fst item)) of
           Inl e \<Rightarrow> Inl e
         | Inr hits \<Rightarrow>
             enriched_loop top_5_nearest_cells_d threshold (keep @ [fst item])
               (f @ [header_line (fst item), hits]) items)
      else enriched_loop top_5_nearest_cells_d threshold keep f items)"

definition enriched_brain_cortex_plot_and_data ::
  "(string \<times> int \<times> int) list \<Rightarrow> (string \<rightharpoonup> string list) \<Rightarrow> int \<Rightarrow>
   py_error + (string list \<times> string list)" where
  "enriched_brain_cortex_plot_and_data count_tuples top_5_nearest_cells_d threshold =
     enriched_loop top_5_nearest_cells_d threshold [] [] count_tuples"

section \<open>Coarse aggregation and contingency comparison: \<open>make_classification_histograms\<close>\<close>

text \<open>The Python test \<open>sub in s\<close> on strings.\<close>

fun str_contains :: "string \<Rightarrow> string \<Rightarrow> bool" where
  "str_contains [] sub = (sub = [])"
| "str_contains (c # cs) sub = (take (length sub) (c # cs) = sub \<or> str_contains cs sub)"

text \<open>
  The loop over \<open>classifications.items()\<close> (the dictionary from Query Group name to the
  list of that group's classifications, in insertion order), without the plotting:
  \<^verbatim>\<open>
  control_clfs = []
  disease_clfs = []
  for query_type, clfs in classifications.items():
      ...
      if 'control' in query_type:
          control_clfs.extend(clfs)
      elif 'disease' in query_type:
          disease_clfs.extend(clfs)
  \<close>
\<close>

definition coarse_step ::
  "'c list \<times> 'c list \<Rightarrow> string \<times> 'c list \<Rightarrow> 'c list \<times> 'c list" where
  "coarse_step acc entry =
     (case acc of (control_clfs, disease_clfs) \<Rightarrow>
      case entry of (query_type, clfs) \<Rightarrow>
        if str_contains query_type ''control'' then (control_clfs @ clfs, disease_clfs)
        else if str_contains query_type ''disease'' then (control_clfs, disease_clfs @ clfs)
        else (control_clfs, disease_clfs))"

definition coarse_clfs :: "(string \<times> 'c list) list \<Rightarrow> 'c list \<times> 'c list" where
  "coarse_clfs classifications = foldl coarse_step ([], []) classifications"

text \<open>
  The counting loops of the merge
  (\<open>count = 0; for c in control_clfs: if c == label: count += 1\<close>); the counts are
  then stored in a float array.
\<close>

definition label_count :: "'a list \<Rightarrow> 'a \<Rightarrow> rat" where
  "label_count clfs label = foldl (\<lambda>count c. if c = label then count + 1 else count) 0 clfs"

text \<open>
  The loop that annotates the bars with p-values:
  \<^verbatim>\<open>
  for rect1, rect2 in zip(rects1, rects2):
      height1 = rect1.get_height()
      height2 = rect2.get_height()
      count1 = math.floor(1000*height1)
      count2 = math.floor(1000*height2)
      pval = binom_test(count1, count1+count2, p=0.5)
  \<close>
  The heights of the bars are the fractions they were drawn with.  \<open>binom_test\<close> is the
  SciPy routine; the model records the arguments \<open>(x, n, p)\<close> of each call and takes
  the call itself to return (its arguments satisfy \<open>0 \<le> x \<le> n\<close>).
\<close>

type_synonym binom_test_args = "int \<times> int \<times> rat"

definition pval_args :: "npfloat \<Rightarrow> npfloat \<Rightarrow> py_error + binom_test_args" where
  "pval_args height1 height2 =
     (case math_floor (float_times 1000 height1) of Inl e \<Rightarrow> Inl e | Inr count1 \<Rightarrow>
     (case math_floor (float_times 1000 height2) of Inl e \<Rightarrow> Inl e | Inr count2 \<Rightarrow>
        Inr (count1, count1 + count2, 1/2)))"

fun pval_loop :: "(npfloat \<times> npfloat) list \<Rightarrow> py_error + binom_test_args list" where
  "pval_loop [] = Inr []"
| "pval_loop (rects # rest) =
     (case pval_args (fst rects) (snd rects) of Inl e \<Rightarrow> Inl e | Inr args \<Rightarrow>
     (case pval_loop rest of Inl e \<Rightarrow> Inl e | Inr pvals \<Rightarrow> Inr (args # pvals)))"

text \<open>
  \<open>keep = [i for i in range(contingency_table.shape[1]) if 0 not in contingency_table[:, i]]\<close>
  where the two rows of the table are the control and the disease counts.
\<close>

definition keep_columns :: "rat list \<Rightarrow> rat list \<Rightarrow> nat list" where
  "keep_columns control_counts disease_counts =
     filter (\<lambda>i. 0 \<notin> set [control_counts ! i, disease_counts ! i])
       [0..<length control_counts]"

text \<open>
  The numeric part of \<open>make_classification_histograms\<close> after the coarse lists are
  built, without the plotting, the printing and the renaming of the tick labels.  The
  three index arrays are the results of the three calls of \<open>np.argsort\<close> (on the control
  counts, the disease counts and the control fractions); each is reversed by \<open>[::-1]\<close>.
  The five parallel arrays of the source are the fields of \<open>bar_data\<close>.
\<close>

record bar_data =
  merged_db_types :: "string list"
  control_counts :: "rat list"
  control_fracs :: "npfloat list"
  disease_counts :: "rat list"
  disease_fracs :: "npfloat list"

text \<open>
  ``Merge the cases'': the label columns are the sorted union of the labels of the two
  lists; counts per column, and fractions \<open>counts / len(clfs)\<close>.
\<close>

definition merge_cases ::
  "string list \<Rightarrow> string list \<Rightarrow> nat list \<Rightarrow> nat list \<Rightarrow> py_error + bar_data" where
  "merge_cases control_clfs disease_clfs sort_idx_control sort_idx_disease =
     (case np_take (np_unique control_clfs) (rev sort_idx_control) of Inl e \<Rightarrow> Inl e
      | Inr db_types_control \<Rightarrow>
     (case np_take (np_unique disease_clfs) (rev sort_idx_disease) of Inl e \<Rightarrow> Inl e
      | Inr db_types_disease \<Rightarrow>
        let merged = np_union1d db_types_control db_types_disease;
            ccounts = map (label_count control_clfs) merged;
            dcounts = map (label_count disease_clfs) merged
        in Inr \<lparr> merged_db_types = merged,
                 control_counts = ccounts,
                 control_fracs = map (\<lambda>c. np_div c (of_nat (length control_clfs))) ccounts,
                 disease_counts = dcounts,
                 disease_fracs = map (\<lambda>c. np_div c (of_nat (length disease_clfs))) dcounts \<rparr>))"

text \<open>
  \<open>labels_sort_idx = np.argsort(control_fracs)[::-1]\<close>, then every array is indexed by
  \<open>labels_sort_idx\<close>.
\<close>

definition sort_columns :: "bar_data \<Rightarrow> nat list \<Rightarrow> py_error + bar_data" where
  "sort_columns b idx =
     (case np_take (merged_db_types b) (rev idx) of Inl e \<Rightarrow> Inl e | Inr types \<Rightarrow>
     (case np_take (disease_fracs b) (rev idx) of Inl e \<Rightarrow> Inl e | Inr dfracs \<Rightarrow>
     (case np_take (disease_counts b) (rev idx) of Inl e \<Rightarrow> Inl e | Inr dcounts \<Rightarrow>
     (case np_take (control_fracs b) (rev idx) of Inl e \<Rightarrow> Inl e | Inr cfracs \<Rightarrow>
     (case np_take (control_counts b) (rev idx) of Inl e \<Rightarrow> Inl e | Inr ccounts \<Rightarrow>
        Inr \<lparr> merged_db_types = types, control_counts = ccounts, control_fracs = cfracs,
              disease_counts = dcounts, disease_fracs = dfracs \<rparr>)))))"

text \<open>
  The second table: the columns in \<open>keep\<close>, with the fractions recomputed as
  \<open>counts / np.sum(counts)\<close>.
\<close>

definition non_zero_columns :: "bar_data \<Rightarrow> py_error + bar_data" where
  "non_zero_columns b =
     (let keep = keep_columns (control_counts b) (disease_counts b) in
      case np_take (merged_db_types b) keep of Inl e \<Rightarrow> Inl e | Inr types \<Rightarrow>
     (case np_take (control_counts b) keep of Inl e \<Rightarrow> Inl e | Inr ccounts \<Rightarrow>
     (case np_take (disease_counts b) keep of Inl e \<Rightarrow> Inl e | Inr dcounts \<Rightarrow>
        Inr \<lparr> merged_db_types = types,
              control_counts = ccounts,
              control_fracs = map (\<lambda>c. np_div c (sum_list ccounts)) ccounts,
              disease_counts = dcounts,
              disease_fracs = map (\<lambda>c. np_div c (sum_list dcounts)) dcounts \<rparr>)))"

text \<open>
  The result: the table saved as \<open>contingency_table\<close> with its fractions and the
  arguments of its binomial tests, and the same for \<open>contingency_table2\<close>.
\<close>

record contingency =
  bars :: bar_data
  pvals :: "binom_test_args list"
  bars_non_zero :: bar_data
  pvals_non_zero :: "binom_test_args list"

definition grouped_bars ::
  "string list \<Rightarrow> string list \<Rightarrow> nat list \<Rightarrow> nat list \<Rightarrow> nat list \<Rightarrow> py_error + contingency" where
  "grouped_bars control_clfs disease_clfs sort_idx_control sort_idx_disease labels_sort_idx =
     (case merge_cases control_clfs disease_clfs sort_idx_control sort_idx_disease of
        Inl e \<Rightarrow> Inl e | Inr merged \<Rightarrow>
     (case sort_columns merged labels_sort_idx of Inl e \<Rightarrow> Inl e | Inr b \<Rightarrow>
     (case pval_loop (zip (control_fracs b) (disease_fracs b)) of Inl e \<Rightarrow> Inl e | Inr pvals1 \<Rightarrow>
     (case non_zero_columns b of Inl e \<Rightarrow> Inl e | Inr b2 \<Rightarrow>
     (case pval_loop (zip (control_fracs b2) (disease_fracs b2)) of Inl e \<Rightarrow> Inl e | Inr pvals2 \<Rightarrow>
        Inr \<lparr> bars = b, pvals = pvals1, bars_non_zero = b2, pvals_non_zero = pvals2 \<rparr>)))))"

definition make_classification_histograms ::
  "(string \<times> string list) list \<Rightarrow> nat list \<Rightarrow> nat list \<Rightarrow> nat list \<Rightarrow> py_error + contingency" where
  "make_classification_histograms classifications sort_idx_control sort_idx_disease
       labels_sort_idx =
     (case coarse_clfs classifications of (control_clfs, disease_clfs) \<Rightarrow>
        grouped_bars control_clfs disease_clfs sort_idx_control sort_idx_disease
          labels_sort_idx)"

section \<open>Majority classification returns the nearest of the most frequent labels\<close>

lemma list_index_Inr_iff:
  "list_index xs x = Inr i \<longleftrightarrow> i < length xs \<and> xs ! i = x \<and> (\<forall>j<i. xs ! j \<noteq> x)"
proof (induction xs arbitrary: i)
  case Nil
  then show ?case by simp
next
  case (Cons y ys)
  show ?case
  proof (cases "y = x")
    case True
    then show ?thesis by (cases i) auto
  next
    case False
    show ?thesis
    proof (cases i)
      case 0
      with False show ?thesis by (auto split: sum.splits)
    next
      case (Suc n)
      have "(\<forall>j<Suc n. (y # ys) ! j \<noteq> x) \<longleftrightarrow> (\<forall>j<n. ys ! j \<noteq> x)"
        using False by (auto simp: less_Suc_eq_0_disj)
      with False Suc Cons.IH [of n] show ?thesis
        by (auto split: sum.splits)
    qed
  qed
qed

lemma list_index_mem: "x \<in> set xs \<Longrightarrow> \<exists>i. list_index xs x = Inr i"
  by (induction xs) (auto split: sum.splits)

lemma list_index_Inl: "list_index xs x = Inl e \<Longrightarrow> x \<notin> set xs"
  using list_index_mem [of x xs] by auto

lemma count_list_dropWhile_other:
  "k \<noteq> x \<Longrightarrow> count_list (dropWhile (\<lambda>y. y = x) xs) k = count_list xs k"
  by (induction xs) auto

lemma sorted_dropWhile_eq_notin:
  "sorted (x # xs) \<Longrightarrow> x \<notin> set (dropWhile (\<lambda>y. y = x) xs)"
  by (induction xs) (auto)

lemma sorted_count_takeWhile:
  "sorted (x # xs) \<Longrightarrow> length (takeWhile (\<lambda>y. y = x) xs) = count_list xs x"
proof (induction xs)
  case Nil
  then show ?case by simp
next
  case (Cons a xs)
  show ?case
  proof (cases "a = x")
    case True
    with Cons show ?thesis by auto
  next
    case False
    with Cons.prems have "x \<notin> set (a # xs)" by auto
    then have "count_list (a # xs) x = 0" by (auto simp: count_list_0_iff)
    with False show ?thesis by simp
  qed
qed

lemma set_fst_groupby: "fst ` set (groupby ys) = set ys"
proof (induction ys rule: groupby.induct)
  case 1
  then show ?case by simp
next
  case (2 x xs)
  have "set xs = set (takeWhile (\<lambda>y. y = x) xs) \<union> set (dropWhile (\<lambda>y. y = x) xs)"
    by (metis set_append takeWhile_dropWhile_id)
  moreover have "set (takeWhile (\<lambda>y. y = x) xs) \<subseteq> {x}"
    by (auto dest: set_takeWhileD)
  ultimately show ?case using 2 by auto
qed

lemma groupby_sorted_length:
  "sorted ys \<Longrightarrow> (k, g) \<in> set (groupby ys) \<Longrightarrow> length g = count_list ys k"
proof (induction ys rule: groupby.induct)
  case 1
  then show ?case by simp
next
  case (2 x xs)
  from "2.prems" consider
    (head) "k = x" "g = x # takeWhile (\<lambda>y. y = x) xs"
    | (tail) "(k, g) \<in> set (groupby (dropWhile (\<lambda>y. y = x) xs))"
    by auto
  then show ?case
  proof cases
    case head
    then show ?thesis using sorted_count_takeWhile [OF "2.prems"(1)] by simp
  next
    case tail
    have srt: "sorted (dropWhile (\<lambda>y. y = x) xs)"
      using "2.prems"(1) by (simp add: sorted_dropWhile)
    have "k \<in> set (dropWhile (\<lambda>y. y = x) xs)"
      using tail set_fst_groupby [of "dropWhile (\<lambda>y. y = x) xs"] by force
    then have "k \<noteq> x"
      using sorted_dropWhile_eq_notin [OF "2.prems"(1)] by auto
    then show ?thesis
      using "2.IH" [OF srt tail] by (simp add: count_list_dropWhile_other)
  qed
qed

lemma max_loop_maximal:
  assumes "\<forall>y \<in> set (m # items). key y = Inr (k y)"
  shows "\<exists>r. max_loop key m (k m) items = Inr r \<and> r \<in> set (m # items) \<and>
           (\<forall>y \<in> set (m # items). \<not> tuple_less (k r) (k y))"
  using assms
proof (induction items arbitrary: m)
  case Nil
  then show ?case by (simp add: tuple_less_def)
next
  case (Cons a items)
  have ka: "key a = Inr (k a)" using Cons.prems by simp
  show ?case
  proof (cases "tuple_less (k m) (k a)")
    case True
    have "\<forall>y \<in> set (a # items). key y = Inr (k y)" using Cons.prems by simp
    from Cons.IH [OF this] obtain r where
      r: "max_loop key a (k a) items = Inr r" "r \<in> set (a # items)"
         "\<forall>y \<in> set (a # items). \<not> tuple_less (k r) (k y)" by blast
    have "\<not> tuple_less (k r) (k m)"
      using r(3) True by (auto simp: tuple_less_def)
    with r True ka show ?thesis by auto
  next
    case False
    have "\<forall>y \<in> set (m # items). key y = Inr (k y)" using Cons.prems by simp
    from Cons.IH [OF this] obtain r where
      r: "max_loop key m (k m) items = Inr r" "r \<in> set (m # items)"
         "\<forall>y \<in> set (m # items). \<not> tuple_less (k r) (k y)" by blast
    have "\<not> tuple_less (k r) (k a)"
      using r(3) False by (auto simp: tuple_less_def)
    with r False ka show ?thesis by auto
  qed
qed

lemma py_max_maximal:
  assumes "items \<noteq> []" and "\<forall>y \<in> set items. key y = Inr (k y)"
  shows "\<exists>r. py_max key items = Inr r \<and> r \<in> set items \<and>
           (\<forall>y \<in> set items. \<not> tuple_less (k r) (k y))"
proof -
  from assms(1) obtain m rest where items: "items = m # rest" by (cases items) auto
  from max_loop_maximal [of m rest key k] assms(2) items
  show ?thesis by (simp add: py_max_def)
qed


lemma count_list_sort: "count_list (sort xs) x = count_list xs x"
  by (metis count_mset mset_sort)

lemma classify_result:
  assumes "xs \<noteq> []"
  shows "\<exists>l i. classify xs = Inr l \<and> list_index xs l = Inr i \<and>
           (\<forall>l'. count_list xs l' \<le> count_list xs l) \<and>
           (\<forall>l' j. count_list xs l' = count_list xs l \<and> list_index xs l' = Inr j \<longrightarrow> i \<le> j)"
proof -
  define idx where "idx x = (case list_index xs x of Inr i \<Rightarrow> i | Inl e \<Rightarrow> 0)" for x
  define k :: "'a \<times> 'a list \<Rightarrow> sort_key"
    where "k xv = (int (length (snd xv)), - int (idx (fst xv)))" for xv
  define groups where "groups = groupby (sort xs)"
  have fst_groups: "fst ` set groups = set xs"
    unfolding groups_def by (simp add: set_fst_groupby)
  have idx: "list_index xs x = Inr (idx x)" if "x \<in> set xs" for x
    using list_index_mem [OF that] by (auto simp: idx_def)
  have len: "length (snd y) = count_list xs (fst y)" if "y \<in> set groups" for y
    using groupby_sorted_length [of "sort xs" "fst y" "snd y"] that
    by (simp add: groups_def count_list_sort)
  have keys: "\<forall>y \<in> set groups. classify_key xs y = Inr (k y)"
  proof
    fix y assume "y \<in> set groups"
    then have "fst y \<in> set xs" using fst_groups by blast
    then show "classify_key xs y = Inr (k y)"
      by (simp add: classify_key_def k_def idx)
  qed
  have "groups \<noteq> []" using fst_groups assms by auto
  from py_max_maximal [OF this keys] obtain r where
    r: "py_max (classify_key xs) groups = Inr r" "r \<in> set groups"
       "\<forall>y \<in> set groups. \<not> tuple_less (k r) (k y)" by blast
  define l where "l = fst r"
  have l_in: "l \<in> set xs" using r(2) fst_groups l_def by blast
  have cmp: "count_list xs l' \<le> count_list xs l \<and>
             (count_list xs l' = count_list xs l \<longrightarrow> idx l \<le> idx l')"
    if "l' \<in> set xs" for l'
  proof -
    from that fst_groups obtain y where y: "y \<in> set groups" "fst y = l'" by force
    from r(3) y(1) have "\<not> tuple_less (k r) (k y)" by blast
    then show ?thesis
      using len [OF y(1)] len [OF r(2)] y(2)
      by (auto simp: tuple_less_def k_def l_def)
  qed
  have "classify xs = Inr l"
    using r(1) by (simp add: classify_def groups_def l_def)
  moreover have "list_index xs l = Inr (idx l)" by (rule idx [OF l_in])
  moreover have "count_list xs l' \<le> count_list xs l" for l'
  proof (cases "l' \<in> set xs")
    case True
    then show ?thesis using cmp by blast
  next
    case False
    then show ?thesis by (simp add: count_list_0_iff)
  qed
  moreover have "idx l \<le> j"
    if "count_list xs l' = count_list xs l" "list_index xs l' = Inr j" for l' j
  proof -
    have "l' \<in> set xs" using that(2) list_index_Inr_iff [of xs l' j] by auto
    with cmp that(1) have "idx l \<le> idx l'" by blast
    moreover have "idx l' = j" using that(2) by (simp add: idx_def)
    ultimately show ?thesis by simp
  qed
  ultimately show ?thesis by blast
qed

text \<open>
  Claim C1.  For every query row with at least one neighbour, the majority classification
  over the top-100 labels succeeds and returns a label \<open>l\<close> of the window (it stands at
  some position \<open>i\<close>) whose number of occurrences in the window is maximal, and every
  label ranked before position \<open>i\<close> occurs strictly less often: among the labels tied for
  the maximal count, \<open>l\<close> is the one whose first occurrence is nearest to the query.
\<close>

theorem classify_top_100_majority:
  assumes "sorted_labels \<noteq> []"
  shows "\<exists>l i. classify (take 100 sorted_labels) = Inr l \<and>
           i < length (take 100 sorted_labels) \<and> take 100 sorted_labels ! i = l \<and>
           (\<forall>l'. count_list (take 100 sorted_labels) l' \<le> count_list (take 100 sorted_labels) l) \<and>
           (\<forall>j<i. count_list (take 100 sorted_labels) (take 100 sorted_labels ! j)
                    < count_list (take 100 sorted_labels) l)"
proof -
  define w where "w = take 100 sorted_labels"
  have "w \<noteq> []" using assms by (simp add: w_def)
  from classify_result [OF this] obtain l i where
    li: "classify w = Inr l" "list_index w l = Inr i"
        "\<forall>l'. count_list w l' \<le> count_list w l"
        "\<forall>l' j. count_list w l' = count_list w l \<and> list_index w l' = Inr j \<longrightarrow> i \<le> j"
    by blast
  from li(2) have i: "i < length w" "w ! i = l" "\<forall>j<i. w ! j \<noteq> l"
    by (simp_all add: list_index_Inr_iff)
  have "count_list w (w ! j) < count_list w l" if "j < i" for j
  proof (rule ccontr)
    assume "\<not> count_list w (w ! j) < count_list w l"
    with li(3) have eq: "count_list w (w ! j) = count_list w l"
      by (simp add: le_antisym)
    have "w ! j \<in> set w" using that i(1) by simp
    then obtain j' where j': "list_index w (w ! j) = Inr j'"
      using list_index_mem by fastforce
    then have "\<forall>n<j'. w ! n \<noteq> w ! j"
      by (simp add: list_index_Inr_iff)
    then have "j' \<le> j"
      by (auto simp: not_less [symmetric])
    moreover have "i \<le> j'" using li(4) eq j' by blast
    ultimately show False using that by simp
  qed
  with li(1,3) i show ?thesis unfolding w_def by blast
qed

theorem classify_top_100_majority_witness:
  "[''B'', ''A'', ''C'', ''A'', ''B''] \<noteq> [] \<and>
   classify (take 100 [''B'', ''A'', ''C'', ''A'', ''B'']) = Inr ''B''"
proof -
  have h: "[''B'', ''A'', ''C'', ''A'', ''B''] \<noteq> []" by simp
  from classify_top_100_majority [OF h] h show ?thesis
    by (simp add: classify_def py_max_def classify_key_def tuple_less_def)
qed

section \<open>Index arrays and the loop body of \<open>main\<close>\<close>

lemma index_permutation_set: "index_permutation idx n \<Longrightarrow> set idx = {0..<n}"
  unfolding index_permutation_def using mset_eq_setD [of idx "[0..<n]"] by simp

lemma index_permutation_length: "index_permutation idx n \<Longrightarrow> length idx = n"
  unfolding index_permutation_def using mset_eq_length [of idx "[0..<n]"] by simp

lemma index_permutation_distinct: "index_permutation idx n \<Longrightarrow> distinct idx"
  unfolding index_permutation_def using mset_eq_imp_distinct_iff [of idx "[0..<n]"] by simp

lemma np_take_permutation:
  "index_permutation idx (length a) \<Longrightarrow> np_take a idx = Inr (map (\<lambda>i. a ! i) idx)"
  by (simp add: np_take_def index_permutation_set)

lemma set_take_permutation:
  assumes "index_permutation idx (length a)"
  shows "set (map (\<lambda>i. a ! i) idx) = set a"
proof -
  have "set (map (\<lambda>i. a ! i) idx) = (\<lambda>i. a ! i) ` {0..<length a}"
    using index_permutation_set [OF assms] by simp
  also have "\<dots> = set a"
    by (auto simp: in_set_conv_nth)
  finally show ?thesis .
qed

lemma mset_take_permutation:
  assumes "index_permutation idx (length a)"
  shows "mset (map (\<lambda>i. a ! i) idx) = mset a"
proof -
  have "mset (map (\<lambda>i. a ! i) idx) = image_mset (\<lambda>i. a ! i) (mset idx)" by simp
  also have "\<dots> = image_mset (\<lambda>i. a ! i) (mset [0..<length a])"
    using assms by (simp add: index_permutation_def)
  also have "\<dots> = mset (map (\<lambda>i. a ! i) [0..<length a])" by simp
  also have "\<dots> = mset a" by (simp only: map_nth)
  finally show ?thesis .
qed

lemma count_list_take_permutation:
  "index_permutation idx (length a) \<Longrightarrow> count_list (map (\<lambda>i. a ! i) idx) x = count_list a x"
  by (metis count_mset mset_take_permutation)

lemma sum_list_take_permutation:
  fixes a :: "rat list"
  shows "index_permutation idx (length a) \<Longrightarrow> sum_list (map (\<lambda>i. a ! i) idx) = sum_list a"
  by (metis sum_mset_sum_list mset_take_permutation)


lemma query_row_fields:
  assumes "query_row sample_id ds idx labels ids = Inr r"
  shows "\<forall>i \<in> set idx. i < length ds \<and> i < length labels \<and> i < length ids"
    and "idx \<noteq> []"
    and "min_distances r =
           nearest_dist_to_each_type (map (\<lambda>i. ds ! i) idx) (map (\<lambda>i. labels ! i) idx)"
    and "classify (take 100 (map (\<lambda>i. labels ! i) idx)) = Inr (classified_label r)"
    and "top_5_types r = take 5 (map (\<lambda>i. labels ! i) idx)"
    and "avg_top_5_distances r = np_mean (take 5 (map (\<lambda>i. ds ! i) idx))"
    and "top_5_nearest_cells r = take 5 (map (\<lambda>i. ids ! i) idx)"
    and "brain_cortex_counts r =
           (sample_id,
            int (count_list (take 100 (map (\<lambda>i. labels ! i) idx)) brain)
              + int (count_list (take 100 (map (\<lambda>i. labels ! i) idx)) cortex),
            int (count_list (take 100 (map (\<lambda>i. labels ! i) idx)) bone_marrow_cell)
              + int (count_list (take 100 (map (\<lambda>i. labels ! i) idx)) osteocyte))"
  using assms
  by (auto simp: query_row_def np_take_def Let_def split: if_splits sum.splits)

lemma query_row_succeeds:
  assumes "index_permutation idx (length ds)" "length labels = length ds"
    "length ids = length ds" "0 < length ds"
  shows "\<exists>r. query_row sample_id ds idx labels ids = Inr r"
proof -
  have len: "length idx = length ds" using assms(1) by (rule index_permutation_length)
  then have ne: "take 100 (map (\<lambda>i. labels ! i) idx) \<noteq> []" using assms(4) by auto
  from classify_result [OF ne] obtain l where
    "classify (take 100 (map (\<lambda>i. labels ! i) idx)) = Inr l" by blast
  moreover have "np_take ds idx = Inr (map (\<lambda>i. ds ! i) idx)"
    using assms(1) by (rule np_take_permutation)
  moreover have "np_take labels idx = Inr (map (\<lambda>i. labels ! i) idx)"
    using assms(1,2) by (simp add: np_take_permutation)
  moreover have "np_take ids idx = Inr (map (\<lambda>i. ids ! i) idx)"
    using assms(1,3) by (simp add: np_take_permutation)
  moreover have "idx \<noteq> []" using len assms(4) by auto
  ultimately show ?thesis
    by (simp add: query_row_def Let_def)
qed

section \<open>Nearest distance per label\<close>

lemma map_of_nearest_dist_fold:
  "map_of (foldl nearest_dist_step acc ps) = map_of (map (\<lambda>(d, l). (l, d)) ps) ++ map_of acc"
proof (induction ps arbitrary: acc)
  case Nil
  then show ?case by simp
next
  case (Cons p ps)
  obtain d l where p: "p = (d, l)" by (cases p)
  let ?m = "map_of (map (\<lambda>(d, l). (l, d)) ps)"
  show ?case
  proof (cases "l \<in> fst ` set acc")
    case True
    then have "map_of acc l \<noteq> None" by (simp add: map_of_eq_None_iff)
    then obtain v where v: "map_of acc l = Some v" by blast
    have step: "nearest_dist_step acc (d, l) = acc"
      using True by (simp add: nearest_dist_step_def)
    have eq: "?m(l \<mapsto> d) ++ map_of acc = ?m ++ map_of acc"
    proof (rule ext)
      fix k show "(?m(l \<mapsto> d) ++ map_of acc) k = (?m ++ map_of acc) k"
        using v by (cases "k = l") (simp_all add: map_add_def split: option.splits)
    qed
    have "map_of (foldl nearest_dist_step acc (p # ps)) = map_of (foldl nearest_dist_step acc ps)"
      using step p by simp
    also have "\<dots> = ?m ++ map_of acc" by (rule Cons.IH)
    also have "\<dots> = ?m(l \<mapsto> d) ++ map_of acc" by (rule eq [symmetric])
    also have "?m(l \<mapsto> d) = map_of (map (\<lambda>(d, l). (l, d)) (p # ps))"
      unfolding p by simp
    finally show ?thesis .
  next
    case False
    then have none: "map_of acc l = None" by (simp add: map_of_eq_None_iff)
    have step: "nearest_dist_step acc (d, l) = acc @ [(l, d)]"
      using False by (simp add: nearest_dist_step_def)
    have eq: "?m(l \<mapsto> d) ++ map_of acc = ?m ++ map_of (acc @ [(l, d)])"
    proof (rule ext)
      fix k show "(?m(l \<mapsto> d) ++ map_of acc) k = (?m ++ map_of (acc @ [(l, d)])) k"
        using none by (cases "k = l") (simp_all add: map_add_def split: option.splits)
    qed
    have "map_of (foldl nearest_dist_step acc (p # ps))
          = map_of (foldl nearest_dist_step (acc @ [(l, d)]) ps)"
      using step p by simp
    also have "\<dots> = ?m ++ map_of (acc @ [(l, d)])" by (rule Cons.IH)
    also have "\<dots> = ?m(l \<mapsto> d) ++ map_of acc" by (rule eq [symmetric])
    also have "?m(l \<mapsto> d) = map_of (map (\<lambda>(d, l). (l, d)) (p # ps))"
      unfolding p by simp
    finally show ?thesis .
  qed
qed

lemma distinct_nearest_dist_fold:
  "distinct (map fst acc) \<Longrightarrow> distinct (map fst (foldl nearest_dist_step acc ps))"
proof (induction ps arbitrary: acc)
  case Nil
  then show ?case by simp
next
  case (Cons p ps)
  have "distinct (map fst (nearest_dist_step acc p))"
    using Cons.prems by (cases p) (auto simp: nearest_dist_step_def)
  then show ?case using Cons.IH by simp
qed

lemma swap_zip: "map (\<lambda>(d, l). (l, d)) (zip ds ls) = zip ls ds"
  by (induction ds ls rule: list_induct2') auto

lemma map_of_nearest_dist:
  "map_of (nearest_dist_to_each_type distances labels) = map_of (zip labels distances)"
  by (simp add: nearest_dist_to_each_type_def map_of_nearest_dist_fold swap_zip)

lemma distinct_nearest_dist:
  "distinct (map fst (nearest_dist_to_each_type distances labels))"
  by (simp add: nearest_dist_to_each_type_def distinct_nearest_dist_fold)

lemma keys_nearest_dist:
  assumes "length distances = length labels"
  shows "fst ` set (nearest_dist_to_each_type distances labels) = set labels"
proof -
  have "fst ` set (nearest_dist_to_each_type distances labels)
        = dom (map_of (nearest_dist_to_each_type distances labels))"
    by (simp add: dom_map_of_conv_image_fst)
  also have "\<dots> = dom (map_of (zip labels distances))"
    by (simp only: map_of_nearest_dist)
  also have "\<dots> = set labels"
    using assms by (simp add: dom_map_of_zip)
  finally show ?thesis .
qed

lemma map_of_zip_list_index:
  "list_index xs x = Inr i \<Longrightarrow> length ys = length xs \<Longrightarrow> map_of (zip xs ys) x = Some (ys ! i)"
proof (induction xs arbitrary: ys i)
  case Nil
  then show ?case by simp
next
  case (Cons a xs)
  then obtain b ys' where ys: "ys = b # ys'" by (cases ys) auto
  show ?case
  proof (cases "a = x")
    case True
    with Cons.prems ys show ?thesis by simp
  next
    case False
    with Cons.prems(1) obtain n where n: "list_index xs x = Inr n" "i = Suc n"
      by (auto split: sum.splits)
    with Cons.IH [of n ys'] Cons.prems(2) ys False show ?thesis by simp
  qed
qed

lemma nearest_dist_of_record:
  assumes "argsort_result distances_to_query idx"
    and "length db_labels = length distances_to_query"
    and "query_row sample_id distances_to_query idx db_labels db_cell_ids = Inr r"
  shows "distinct (map fst (min_distances r)) \<and>
         fst ` set (min_distances r) = set db_labels \<and>
         (\<forall>l \<in> set db_labels. \<exists>i.
            list_index (map (\<lambda>i. db_labels ! i) idx) l = Inr i \<and>
            map_of (min_distances r) l = Some (distances_to_query ! (idx ! i)) \<and>
            (\<forall>j < length db_labels. db_labels ! j = l \<longrightarrow>
               distances_to_query ! (idx ! i) \<le> distances_to_query ! j))"
proof -
  let ?sd = "map (\<lambda>i. distances_to_query ! i) idx"
  let ?sl = "map (\<lambda>i. db_labels ! i) idx"
  have perm: "index_permutation idx (length db_labels)"
    and srt: "sorted ?sd"
    using assms(1,2) by (simp_all add: argsort_result_def)
  have len: "length idx = length db_labels" using perm by (rule index_permutation_length)
  have md: "min_distances r = nearest_dist_to_each_type ?sd ?sl"
    using assms(3) by (rule query_row_fields)
  have set_sl: "set ?sl = set db_labels" using perm by (rule set_take_permutation)
  have "distinct (map fst (min_distances r))"
    unfolding md by (rule distinct_nearest_dist)
  moreover have "fst ` set (min_distances r) = set db_labels"
    unfolding md using keys_nearest_dist [of ?sd ?sl] set_sl by simp
  moreover have "\<exists>i. list_index ?sl l = Inr i \<and>
            map_of (min_distances r) l = Some (distances_to_query ! (idx ! i)) \<and>
            (\<forall>j < length db_labels. db_labels ! j = l \<longrightarrow>
               distances_to_query ! (idx ! i) \<le> distances_to_query ! j)"
    if l: "l \<in> set db_labels" for l
  proof -
    from l set_sl have "l \<in> set ?sl" by simp
    then obtain i where i: "list_index ?sl l = Inr i" using list_index_mem by fastforce
    then have "i < length ?sl \<and> ?sl ! i = l \<and> (\<forall>k<i. ?sl ! k \<noteq> l)"
      using list_index_Inr_iff [of ?sl l i] by blast
    then have i_props: "i < length idx" "\<forall>k<i. ?sl ! k \<noteq> l"
      by (simp, blast)
    have "map_of (min_distances r) l = Some (?sd ! i)"
      unfolding md map_of_nearest_dist by (rule map_of_zip_list_index [OF i]) simp
    then have rec: "map_of (min_distances r) l = Some (distances_to_query ! (idx ! i))"
      using i_props(1) by simp
    have "distances_to_query ! (idx ! i) \<le> distances_to_query ! j"
      if j: "j < length db_labels" "db_labels ! j = l" for j
    proof -
      have "j \<in> set idx" using index_permutation_set [OF perm] j(1) by simp
      then obtain k where k: "k < length idx" "idx ! k = j" by (auto simp: in_set_conv_nth)
      then have "?sl ! k = l" using j(2) by simp
      with i_props(2) have "i \<le> k" by (auto simp: not_less [symmetric])
      have "?sd ! i \<le> ?sd ! k"
        by (rule sorted_nth_mono [OF srt \<open>i \<le> k\<close>]) (simp add: k(1))
      then show ?thesis using k i_props(1) by simp
    qed
    with i rec show ?thesis by blast
  qed
  ultimately show ?thesis by blast
qed

text \<open>
  Claim C3.  For every query row of a database with at least one row, given a ranking
  that \<open>np.argsort\<close> can return and one label and one cell identifier per database
  row, the loop body returns a record whose nearest-distance mapping has pairwise
  distinct keys; its keys are exactly the labels that occur in the database label
  sequence, and the distance recorded for a label is the distance at the first position
  of that label in rank order, which is the smallest distance of any database row
  carrying the label.
\<close>

theorem nearest_dist_covers_all_labels:
  assumes "argsort_result distances_to_query idx"
    and "length db_labels = length distances_to_query"
    and "length db_cell_ids = length distances_to_query"
    and "0 < length distances_to_query"
  shows "\<exists>r. query_row sample_id distances_to_query idx db_labels db_cell_ids = Inr r \<and>
         distinct (map fst (min_distances r)) \<and>
         fst ` set (min_distances r) = set db_labels \<and>
         (\<forall>l \<in> set db_labels. \<exists>i.
            list_index (map (\<lambda>i. db_labels ! i) idx) l = Inr i \<and>
            map_of (min_distances r) l = Some (distances_to_query ! (idx ! i)) \<and>
            (\<forall>j < length db_labels. db_labels ! j = l \<longrightarrow>
               distances_to_query ! (idx ! i) \<le> distances_to_query ! j))"
proof -
  have "index_permutation idx (length distances_to_query)"
    using assms(1) by (simp add: argsort_result_def)
  from query_row_succeeds [OF this assms(2,3,4)] obtain r where
    r: "query_row sample_id distances_to_query idx db_labels db_cell_ids = Inr r" by blast
  from nearest_dist_of_record [OF assms(1,2) r] r show ?thesis by blast
qed

theorem nearest_dist_covers_all_labels_witness:
  "argsort_result [1, 2, 1/2 :: rat] [2, 0, 1] \<and>
   query_row ''q'' [1, 2, 1/2] [2, 0, 1] [''A'', ''A'', ''B''] [''c0'', ''c1'', ''c2'']
     = Inr \<lparr> top_5_nearest_cells = [''c2'', ''c0'', ''c1''],
             brain_cortex_in_top_1 = False, brain_cortex_in_top_5 = False,
             brain_cortex_in_top_10 = False, brain_cortex_in_top_100 = False,
             brain_cortex_counts = (''q'', 0, 0),
             min_distances = [(''B'', 1/2), (''A'', 1)],
             top_5_types = [''B'', ''A'', ''A''],
             avg_top_5_distances = Finite (7/6), classified_label = ''A'' \<rparr> \<and>
   fst ` set [(''B'', 1/2 :: rat), (''A'', 1)] = set [''A'', ''A'', ''B'']"
proof -
  have a: "argsort_result [1, 2, 1/2 :: rat] [2, 0, 1]"
    by (simp add: argsort_result_def index_permutation_def upt_rec)
  have q: "query_row ''q'' [1, 2, 1/2] [2, 0, 1] [''A'', ''A'', ''B''] [''c0'', ''c1'', ''c2'']
     = Inr \<lparr> top_5_nearest_cells = [''c2'', ''c0'', ''c1''],
             brain_cortex_in_top_1 = False, brain_cortex_in_top_5 = False,
             brain_cortex_in_top_10 = False, brain_cortex_in_top_100 = False,
             brain_cortex_counts = (''q'', 0, 0),
             min_distances = [(''B'', 1/2), (''A'', 1)],
             top_5_types = [''B'', ''A'', ''A''],
             avg_top_5_distances = Finite (7/6), classified_label = ''A'' \<rparr>"
    by (simp add: query_row_def np_take_def classify_def py_max_def classify_key_def
        tuple_less_def nearest_dist_to_each_type_def nearest_dist_step_def np_mean_def np_div_def
        brain_def cortex_def bone_marrow_cell_def osteocyte_def)
  have l1: "length [''A'', ''A'', ''B''] = length [1, 2, 1/2 :: rat]"
    and l2: "length [''c0'', ''c1'', ''c2''] = length [1, 2, 1/2 :: rat]"
    and l3: "0 < length [1, 2, 1/2 :: rat]" by simp_all
  from nearest_dist_covers_all_labels [OF a l1 l2 l3, of "''q''"] a q show ?thesis by simp
qed

section \<open>Neighbour ranking\<close>

text \<open>
  \<open>stable_argsort\<close> is a ranking in the sense of \<open>argsort_result\<close> (lemma
  \<open>stable_argsort_result\<close>), and it lists the rows of equal distance in row order.
\<close>

lemma stable_argsort_ties:
  "filter (\<lambda>i. a ! i = k) (stable_argsort a) = filter (\<lambda>i. a ! i = k) [0..<length a]"
  unfolding stable_argsort_def by (rule sort_key_stable)





section \<open>Fewer database rows than the window\<close>

text \<open>
  Claim C4.  For every database with at least one row and every query row, the loop
  body returns a record.  With at most 100 rows the majority classification and the two
  target-label counts are those of all database labels; with at most 5 rows the top-5
  labels and cell identifiers are all the ranked labels and identifiers, and the mean
  top-5 distance is the mean of all distances of the row.
\<close>

theorem top_k_uses_all_available_rows:
  assumes "argsort_result distances_to_query idx"
    and "length db_labels = length distances_to_query"
    and "length db_cell_ids = length distances_to_query"
    and "0 < length distances_to_query"
  shows "\<exists>r. query_row sample_id distances_to_query idx db_labels db_cell_ids = Inr r \<and>
           (length distances_to_query \<le> 100 \<longrightarrow>
              classify (map (\<lambda>i. db_labels ! i) idx) = Inr (classified_label r) \<and>
              brain_cortex_counts r =
                (sample_id,
                 int (count_list db_labels brain) + int (count_list db_labels cortex),
                 int (count_list db_labels bone_marrow_cell) + int (count_list db_labels osteocyte))) \<and>
           (length distances_to_query \<le> 5 \<longrightarrow>
              top_5_types r = map (\<lambda>i. db_labels ! i) idx \<and>
              top_5_nearest_cells r = map (\<lambda>i. db_cell_ids ! i) idx \<and>
              avg_top_5_distances r =
                Finite (sum_list distances_to_query / of_nat (length distances_to_query)))"
proof -
  let ?n = "length distances_to_query"
  have perm: "index_permutation idx ?n"
    using assms(1) by (simp add: argsort_result_def)
  have len: "length idx = ?n" using perm by (rule index_permutation_length)
  from query_row_succeeds [OF perm assms(2,3,4)] obtain r where
    r: "query_row sample_id distances_to_query idx db_labels db_cell_ids = Inr r" by blast
  note f = query_row_fields [OF r]
  have perm_l: "index_permutation idx (length db_labels)" using perm assms(2) by simp
  have c100: "classify (map (\<lambda>i. db_labels ! i) idx) = Inr (classified_label r) \<and>
        brain_cortex_counts r =
          (sample_id,
           int (count_list db_labels brain) + int (count_list db_labels cortex),
           int (count_list db_labels bone_marrow_cell) + int (count_list db_labels osteocyte))"
    if "?n \<le> 100"
  proof -
    have "take 100 (map (\<lambda>i. db_labels ! i) idx) = map (\<lambda>i. db_labels ! i) idx"
      using that len by simp
    then show ?thesis
      using f(4) f(8) by (simp add: count_list_take_permutation [OF perm_l])
  qed
  have c5: "top_5_types r = map (\<lambda>i. db_labels ! i) idx \<and>
        top_5_nearest_cells r = map (\<lambda>i. db_cell_ids ! i) idx \<and>
        avg_top_5_distances r = Finite (sum_list distances_to_query / of_nat ?n)"
    if "?n \<le> 5"
  proof -
    have "take 5 (map (\<lambda>i. distances_to_query ! i) idx) = map (\<lambda>i. distances_to_query ! i) idx"
      using that len by simp
    then have "avg_top_5_distances r = np_mean (map (\<lambda>i. distances_to_query ! i) idx)"
      using f(6) by simp
    also have "\<dots> = Finite (sum_list distances_to_query / of_nat ?n)"
      using assms(4) len by (simp add: np_mean_def np_div_def sum_list_take_permutation [OF perm])
    finally show ?thesis using f(5) f(7) that len by simp
  qed
  from r c100 c5 show ?thesis by blast
qed

theorem top_k_uses_all_available_rows_witness:
  "argsort_result [3, 1 :: rat] [1, 0] \<and>
   query_row ''q7'' [3, 1] [1, 0] [brain, cortex] [''c0'', ''c1'']
     = Inr \<lparr> top_5_nearest_cells = [''c1'', ''c0''],
             brain_cortex_in_top_1 = True, brain_cortex_in_top_5 = True,
             brain_cortex_in_top_10 = True, brain_cortex_in_top_100 = True,
             brain_cortex_counts = (''q7'', 2, 0),
             min_distances = [(cortex, 1), (brain, 3)],
             top_5_types = [cortex, brain],
             avg_top_5_distances = Finite 2, classified_label = cortex \<rparr>"
proof -
  have a: "argsort_result [3, 1 :: rat] [1, 0]"
    by (simp add: argsort_result_def index_permutation_def upt_rec)
  have l1: "length [brain, cortex] = length [3, 1 :: rat]"
    and l2: "length [''c0'', ''c1''] = length [3, 1 :: rat]"
    and l3: "0 < length [3, 1 :: rat]" by simp_all
  from top_k_uses_all_available_rows [OF a l1 l2 l3, of "''q7''"] a
  show ?thesis
    by (simp add: query_row_def np_take_def classify_def py_max_def classify_key_def
        tuple_less_def nearest_dist_to_each_type_def nearest_dist_step_def np_mean_def np_div_def
        brain_def cortex_def bone_marrow_cell_def osteocyte_def)
qed

section \<open>Enrichment selection\<close>

lemma hits_lines_five:
  assumes "5 \<le> length cells"
  shows "hits_lines cells = Inr (concat (map (\<lambda>c. tab @ c @ newline) (take 5 cells)))"
proof -
  have "take 5 cells = [cells ! 0, cells ! 1, cells ! 2, cells ! 3, cells ! 4]"
    using assms by (auto simp: list_eq_iff_nth_eq nth_Cons' numeral_eq_Suc less_Suc_eq)
  moreover have "cells \<noteq> []" using assms by auto
  ultimately show ?thesis
    using assms by (simp add: hits_lines_def list_get_def)
qed

lemma hits_lines_short: "length cells < 5 \<Longrightarrow> hits_lines cells = Inl IndexError"
  by (auto simp: hits_lines_def list_get_def)

lemma enriched_loop_result:
  assumes "\<forall>item \<in> set items. threshold < fst (snd item) \<longrightarrow> 5 \<le> length (defaultdict_get d (fst item))"
  shows "enriched_loop d threshold keep f items =
           Inr (keep @ map fst (filter (\<lambda>item. threshold < fst (snd item)) items),
                f @ concat (map (\<lambda>item. [header_line (fst item),
                                   concat (map (\<lambda>c. tab @ c @ newline) (take 5 (defaultdict_get d (fst item))))])
                              (filter (\<lambda>item. threshold < fst (snd item)) items)))"
  using assms
proof (induction items arbitrary: keep f)
  case Nil
  then show ?case by simp
next
  case (Cons item items)
  have rest: "\<forall>item \<in> set items. threshold < fst (snd item) \<longrightarrow> 5 \<le> length (defaultdict_get d (fst item))"
    using Cons.prems by simp
  show ?case
  proof (cases "threshold < fst (snd item)")
    case True
    then have "5 \<le> length (defaultdict_get d (fst item))" using Cons.prems by simp
    then show ?thesis
      using True Cons.IH [OF rest] by (simp add: hits_lines_five)
  next
    case False
    then show ?thesis using Cons.IH [OF rest] by simp
  qed
qed

text \<open>
  Claim C5.  When the dictionary holds at least five cell identifiers for every query
  whose first count exceeds the threshold, the selector returns exactly the identifiers
  of the queries with \<open>threshold < count\<close>, in their order (a count equal to the
  threshold is not selected), and writes for each of them its identifier line followed
  by the first five cell identifiers recorded for it.
\<close>

theorem enrichment_selects_above_threshold:
  assumes "\<forall>item \<in> set count_tuples.
             threshold < fst (snd item) \<longrightarrow> 5 \<le> length (defaultdict_get top_5_nearest_cells_d (fst item))"
  shows "enriched_brain_cortex_plot_and_data count_tuples top_5_nearest_cells_d threshold =
           Inr (map fst (filter (\<lambda>item. threshold < fst (snd item)) count_tuples),
                concat (map (\<lambda>item. [header_line (fst item),
                                   concat (map (\<lambda>c. tab @ c @ newline)
                                     (take 5 (defaultdict_get top_5_nearest_cells_d (fst item))))])
                         (filter (\<lambda>item. threshold < fst (snd item)) count_tuples)))"
  using enriched_loop_result [OF assms, of "[]" "[]"]
  by (simp add: enriched_brain_cortex_plot_and_data_def)

theorem enrichment_selects_above_threshold_witness:
  "enriched_brain_cortex_plot_and_data
     [(''s1'', 80, 3), (''s2'', 65, 0), (''s3'', 71, 9), (''s4'', 70, 0)]
     [''s1'' \<mapsto> [''a1'', ''a2'', ''a3'', ''a4'', ''a5''],
      ''s2'' \<mapsto> [''b1'', ''b2'', ''b3'', ''b4'', ''b5''],
      ''s3'' \<mapsto> [''c1'', ''c2'', ''c3'', ''c4'', ''c5''],
      ''s4'' \<mapsto> [''d1'', ''d2'', ''d3'']] 70
   = Inr ([''s1'', ''s3''],
          [''s1:'' @ newline,
           tab @ ''a1'' @ newline @ tab @ ''a2'' @ newline @ tab @ ''a3'' @ newline
             @ tab @ ''a4'' @ newline @ tab @ ''a5'' @ newline,
           ''s3:'' @ newline,
           tab @ ''c1'' @ newline @ tab @ ''c2'' @ newline @ tab @ ''c3'' @ newline
             @ tab @ ''c4'' @ newline @ tab @ ''c5'' @ newline])"
proof -
  let ?d = "[''s1'' \<mapsto> [''a1'', ''a2'', ''a3'', ''a4'', ''a5''],
             ''s2'' \<mapsto> [''b1'', ''b2'', ''b3'', ''b4'', ''b5''],
             ''s3'' \<mapsto> [''c1'', ''c2'', ''c3'', ''c4'', ''c5''],
             ''s4'' \<mapsto> [''d1'', ''d2'', ''d3'']]"
  have h: "\<forall>item \<in> set [(''s1'', 80, 3), (''s2'', 65, 0), (''s3'', 71, 9), (''s4'', 70 :: int, 0 :: int)].
             70 < fst (snd item) \<longrightarrow> 5 \<le> length (defaultdict_get ?d (fst item))"
    by (simp add: defaultdict_get_def)
  from enrichment_selects_above_threshold [OF h] show ?thesis
    by (simp add: defaultdict_get_def header_line_def)
qed

text \<open>
  In \<open>main\<close> the selector is applied with threshold 70 to the tuples and the top-5
  identifiers of the loop body.  A query whose count of brain and cortex labels among its
  100 nearest neighbours exceeds a threshold of at least 10 has more than five
  neighbours, so five identifiers are recorded for it.
\<close>

lemma selected_query_has_five_neighbours:
  assumes "query_row sample_id distances_to_query idx db_labels db_cell_ids = Inr r"
    and "10 \<le> threshold" and "threshold < fst (snd (brain_cortex_counts r))"
  shows "length (top_5_nearest_cells r) = 5"
proof -
  let ?w = "take 100 (map (\<lambda>i. db_labels ! i) idx)"
  note f = query_row_fields [OF assms(1)]
  have "fst (snd (brain_cortex_counts r)) = int (count_list ?w brain) + int (count_list ?w cortex)"
    using f(8) by simp
  moreover have "count_list ?w brain \<le> length ?w" "count_list ?w cortex \<le> length ?w"
    by (rule count_le_length)+
  ultimately have "threshold < 2 * int (length ?w)" using assms(3) by linarith
  then have "5 \<le> length ?w" using assms(2) by linarith
  then have "5 \<le> length idx" by simp
  then show ?thesis using f(7) by simp
qed

section \<open>Coarse aggregation\<close>

lemma str_contains_iff: "str_contains s sub \<longleftrightarrow> (\<exists>pre post. s = pre @ sub @ post)"
proof (induction s)
  case Nil
  then show ?case by auto
next
  case (Cons c cs)
  show ?case
  proof
    assume "str_contains (c # cs) sub"
    then consider "take (length sub) (c # cs) = sub" | "str_contains cs sub" by auto
    then show "\<exists>pre post. c # cs = pre @ sub @ post"
    proof cases
      case 1
      then have "c # cs = [] @ sub @ drop (length sub) (c # cs)"
        by (metis append_Nil append_take_drop_id)
      then show ?thesis by blast
    next
      case 2
      with Cons.IH obtain pre post where "cs = pre @ sub @ post" by blast
      then have "c # cs = (c # pre) @ sub @ post" by simp
      then show ?thesis by blast
    qed
  next
    assume "\<exists>pre post. c # cs = pre @ sub @ post"
    then obtain pre post where eq: "c # cs = pre @ sub @ post" by blast
    show "str_contains (c # cs) sub"
    proof (cases pre)
      case Nil
      with eq have "take (length sub) (c # cs) = sub" by simp
      then show ?thesis by simp
    next
      case (Cons a pre')
      with eq have "cs = pre' @ sub @ post" by simp
      with Cons.IH have "str_contains cs sub" by blast
      then show ?thesis by simp
    qed
  qed
qed

lemma coarse_step_pair:
  "coarse_step (control_clfs, disease_clfs) (query_type, clfs) =
     (if str_contains query_type ''control'' then (control_clfs @ clfs, disease_clfs)
      else if str_contains query_type ''disease'' then (control_clfs, disease_clfs @ clfs)
      else (control_clfs, disease_clfs))"
  by (simp add: coarse_step_def)

lemma coarse_fold:
  "foldl coarse_step (control_clfs, disease_clfs) classifications =
     (control_clfs @ concat (map snd (filter (\<lambda>e. str_contains (fst e) ''control'') classifications)),
      disease_clfs @ concat (map snd (filter (\<lambda>e. \<not> str_contains (fst e) ''control'' \<and>
                                                  str_contains (fst e) ''disease'') classifications)))"
proof (induction classifications arbitrary: control_clfs disease_clfs)
  case Nil
  then show ?case by simp
next
  case (Cons e es)
  obtain q clfs where e: "e = (q, clfs)" by (cases e)
  show ?case
    unfolding e by (simp add: coarse_step_pair Cons.IH)
qed

lemma coarse_clfs_closed:
  "coarse_clfs classifications =
     (concat (map snd (filter (\<lambda>e. str_contains (fst e) ''control'') classifications)),
      concat (map snd (filter (\<lambda>e. \<not> str_contains (fst e) ''control'' \<and>
                                     str_contains (fst e) ''disease'') classifications)))"
  by (simp add: coarse_clfs_def coarse_fold)

text \<open>
  Claim C9, as the program has it.  The control list is the concatenation, in dictionary
  order, of the classifications of every Query Group whose name contains \<open>control\<close>;
  the disease list is that of every group whose name contains \<open>disease\<close> and does not
  contain \<open>control\<close>; the classifications of all other groups are in neither list.
  The loop has no failing branch: it returns the two lists for every dictionary.
\<close>

theorem coarse_groups_by_substring:
  "coarse_clfs classifications =
     (concat (map snd (filter (\<lambda>e. str_contains (fst e) ''control'') classifications)),
      concat (map snd (filter (\<lambda>e. \<not> str_contains (fst e) ''control'' \<and>
                                     str_contains (fst e) ''disease'') classifications)))"
  by (rule coarse_clfs_closed)

theorem coarse_groups_by_substring_witness:
  "coarse_clfs [(''control_3m'', [''X'', ''Y'']), (''disease_3m'', [''Y'']),
                (''healthy_3m'', [''Z'']), (''control_3m_1w'', [''X''])]
     = ([''X'', ''Y'', ''X''], [''Y''])"
  using coarse_groups_by_substring
    [of "[(''control_3m'', [''X'', ''Y'']), (''disease_3m'', [''Y'']),
          (''healthy_3m'', [''Z'']), (''control_3m_1w'', [''X''])]"]
  by simp

text \<open>
  Claim C9 as stated assigns every group whose name contains \<open>disease\<close> to the disease
  list.  A name that also contains \<open>control\<close> is taken by the first branch, and its
  classifications do not reach the disease list.
\<close>

theorem disease_substring_counterexample:
  "str_contains ''disease_vs_control'' ''disease'' \<and>
   coarse_clfs [(''disease_vs_control'', [''X''])] = ([''X''], [])"
  by (simp add: coarse_clfs_def coarse_step_pair)

lemma coarse_lengths:
  "length (concat (map snd (filter (\<lambda>e. str_contains (fst e) ''control'') cs))) +
   length (concat (map snd (filter (\<lambda>e. \<not> str_contains (fst e) ''control'' \<and>
                                         str_contains (fst e) ''disease'') cs))) =
   length (concat (map snd (filter (\<lambda>e. str_contains (fst e) ''control'' \<or>
                                         str_contains (fst e) ''disease'') cs)))"
  by (induction cs) auto

text \<open>
  Claim C10.  A Query Group whose name contains both \<open>control\<close> and \<open>disease\<close>
  contributes its classifications to the control list, between those of the groups
  before and after it, and nothing to the disease list.  For every dictionary the two
  lists together hold as many classifications as the groups matching either substring
  have: none is counted twice.
\<close>

theorem control_takes_precedence:
  assumes "str_contains query_type ''control''" and "str_contains query_type ''disease''"
  shows "coarse_clfs (before @ [(query_type, clfs)] @ after) =
           (fst (coarse_clfs before) @ clfs @ fst (coarse_clfs after),
            snd (coarse_clfs before) @ snd (coarse_clfs after)) \<and>
         length (fst (coarse_clfs classifications)) + length (snd (coarse_clfs classifications)) =
           length (concat (map snd (filter (\<lambda>e. str_contains (fst e) ''control'' \<or>
                                               str_contains (fst e) ''disease'') classifications)))"
  using assms by (simp add: coarse_clfs_closed coarse_lengths)

theorem control_takes_precedence_witness:
  "str_contains ''disease_vs_control'' ''control'' \<and> str_contains ''disease_vs_control'' ''disease'' \<and>
   coarse_clfs ([(''disease_3m'', [''Y''])] @ [(''disease_vs_control'', [''X'', ''Z''])]
                 @ [(''control_3m'', [''W''])]) = ([''X'', ''Z'', ''W''], [''Y''])"
proof -
  have a: "str_contains ''disease_vs_control'' ''control''" by simp
  have b: "str_contains ''disease_vs_control'' ''disease''" by simp
  from control_takes_precedence [OF a b, of "[(''disease_3m'', [''Y''])]" "[''X'', ''Z'']"
      "[(''control_3m'', [''W''])]" "[]"] a b
  show ?thesis by (simp add: coarse_clfs_def coarse_step_pair)
qed

section \<open>Contingency comparison\<close>

lemma np_unique_sorted_list_of_set: "np_unique xs = sorted_list_of_set (set xs)"
  by (simp add: np_unique_def sorted_list_of_set_sort_remdups)

lemma np_unique_cong: "set xs = set ys \<Longrightarrow> np_unique xs = np_unique ys"
  by (simp add: np_unique_sorted_list_of_set)

lemma set_np_unique: "set (np_unique xs) = set xs"
  by (simp add: np_unique_def)

lemma distinct_np_unique: "distinct (np_unique xs)"
  by (simp add: np_unique_def)

lemma index_permutation_rev: "index_permutation (rev idx) n \<longleftrightarrow> index_permutation idx n"
  by (simp add: index_permutation_def)

lemma index_permutation_0: "index_permutation idx 0 \<longleftrightarrow> idx = []"
  by (simp add: index_permutation_def)

lemma label_count_fold:
  "foldl (\<lambda>count c. if c = label then count + 1 else count) (n :: rat) clfs
     = n + of_nat (count_list clfs label)"
  by (induction clfs arbitrary: n) auto

lemma label_count_eq: "label_count clfs label = of_nat (count_list clfs label)"
  by (simp add: label_count_def label_count_fold)


lemma label_count_pos_sum:
  assumes "l \<in> set ls" and "label_count clfs l \<noteq> 0"
  shows "sum_list (map (label_count clfs) ls) \<noteq> 0"
proof -
  have eq: "sum_list (map (label_count clfs) ls) = of_nat (sum_list (map (count_list clfs) ls))"
    by (induction ls) (simp_all add: label_count_eq)
  have "count_list clfs l \<le> sum_list (map (count_list clfs) ls)"
    using assms(1) by (simp add: member_le_sum_list)
  moreover have "0 < count_list clfs l" using assms(2) by (simp add: label_count_eq)
  ultimately have "0 < sum_list (map (count_list clfs) ls)" by (rule less_le_trans [rotated])
  then have "sum_list (map (count_list clfs) ls) \<noteq> 0" by (rule gr_implies_not0)
  then show ?thesis unfolding eq of_nat_eq_0_iff .
qed




lemma np_div_fracs:
  assumes "ls \<noteq> [] \<Longrightarrow> t \<noteq> 0"
  shows "map (\<lambda>c. np_div c t) (map f ls) = map (\<lambda>l. Finite (f l / t)) ls"
proof (cases ls)
  case Nil
  then show ?thesis by simp
next
  case (Cons a as)
  with assms have "t \<noteq> 0" by simp
  then show ?thesis by (simp add: np_div_def)
qed

lemma np_take_map:
  assumes "index_permutation p (length xs)"
  shows "np_take (map f xs) p = Inr (map f (map (\<lambda>i. xs ! i) p))"
proof -
  have "\<forall>i \<in> set p. i < length xs" using index_permutation_set [OF assms] by simp
  then show ?thesis by (simp add: np_take_def)
qed

lemma filter_by_index:
  "map (\<lambda>i. xs ! i) (filter (\<lambda>i. P (xs ! i)) [0..<length xs]) = filter P xs"
proof (induction xs rule: rev_induct)
  case Nil
  then show ?case by simp
next
  case (snoc x xs)
  have "filter (\<lambda>i. P ((xs @ [x]) ! i)) [0..<length xs] = filter (\<lambda>i. P (xs ! i)) [0..<length xs]"
    by (rule filter_cong) (simp_all add: nth_append)
  moreover have "map (\<lambda>i. (xs @ [x]) ! i) (filter (\<lambda>i. P (xs ! i)) [0..<length xs])
               = map (\<lambda>i. xs ! i) (filter (\<lambda>i. P (xs ! i)) [0..<length xs])"
    by (rule map_cong) (simp_all add: nth_append)
  ultimately show ?case using snoc.IH by (simp add: nth_append)
qed

lemma columns_props:
  assumes "index_permutation idx (length (np_unique xs))"
  shows "distinct (map (\<lambda>i. np_unique xs ! i) (rev idx))"
    and "set (map (\<lambda>i. np_unique xs ! i) (rev idx)) = set xs"
proof -
  have p: "index_permutation (rev idx) (length (np_unique xs))"
    using assms by (simp add: index_permutation_rev)
  have "mset (map (\<lambda>i. np_unique xs ! i) (rev idx)) = mset (np_unique xs)"
    using p by (rule mset_take_permutation)
  then show "distinct (map (\<lambda>i. np_unique xs ! i) (rev idx))"
    using distinct_np_unique [of xs] mset_eq_imp_distinct_iff by blast
  show "set (map (\<lambda>i. np_unique xs ! i) (rev idx)) = set xs"
    using set_take_permutation [OF p] by (simp only: set_np_unique)
qed

lemma shared_label_columns:
  fixes control_clfs :: "'a list"
  assumes "set cols = set (control_clfs @ disease_clfs)"
  shows "filter (\<lambda>l. label_count control_clfs l \<noteq> 0 \<and> label_count disease_clfs l \<noteq> 0) cols = []
           \<longleftrightarrow> set control_clfs \<inter> set disease_clfs = {}"
proof -
  have lc: "label_count clfs l = 0 \<longleftrightarrow> l \<notin> set clfs" for clfs :: "'a list" and l
    by (simp add: label_count_eq count_list_0_iff)
  show ?thesis using assms by (auto simp: filter_empty_conv lc)
qed

lemma pval_loop_finite:
  "pval_loop (zip (map (\<lambda>l. Finite (f l)) cols) (map (\<lambda>l. Finite (g l)) cols)) =
     Inr (map (\<lambda>l. (\<lfloor>1000 * f l\<rfloor>, \<lfloor>1000 * f l\<rfloor> + \<lfloor>1000 * g l\<rfloor>, 1/2)) cols)"
  by (induction cols) (simp_all add: pval_args_def math_floor_def float_times_def)

lemma pval_loop_nan_left:
  "cols \<noteq> [] \<Longrightarrow> pval_loop (zip (map (\<lambda>l. NaN) cols) (map g cols)) = Inl ValueError"
  by (cases cols) (simp_all add: pval_args_def math_floor_def float_times_def)

lemma pval_loop_nan_right:
  "cols \<noteq> [] \<Longrightarrow>
     pval_loop (zip (map (\<lambda>l. Finite (f l)) cols) (map (\<lambda>l. NaN) cols)) = Inl ValueError"
  by (cases cols) (simp_all add: pval_args_def math_floor_def float_times_def)

lemma merge_cases_result:
  assumes "index_permutation sort_idx_control (length (np_unique control_clfs))"
    and "index_permutation sort_idx_disease (length (np_unique disease_clfs))"
  shows "merge_cases control_clfs disease_clfs sort_idx_control sort_idx_disease =
    Inr \<lparr> merged_db_types = np_unique (control_clfs @ disease_clfs),
          control_counts = map (label_count control_clfs) (np_unique (control_clfs @ disease_clfs)),
          control_fracs = map (\<lambda>c. np_div c (of_nat (length control_clfs)))
             (map (label_count control_clfs) (np_unique (control_clfs @ disease_clfs))),
          disease_counts = map (label_count disease_clfs) (np_unique (control_clfs @ disease_clfs)),
          disease_fracs = map (\<lambda>c. np_div c (of_nat (length disease_clfs)))
             (map (label_count disease_clfs) (np_unique (control_clfs @ disease_clfs))) \<rparr>"
proof -
  let ?uc = "np_unique control_clfs" and ?ud = "np_unique disease_clfs"
  have pc: "index_permutation (rev sort_idx_control) (length ?uc)"
    and pd: "index_permutation (rev sort_idx_disease) (length ?ud)"
    using assms by (simp_all add: index_permutation_rev)
  have tc: "np_take ?uc (rev sort_idx_control) = Inr (map (\<lambda>i. ?uc ! i) (rev sort_idx_control))"
    using pc by (rule np_take_permutation)
  have td: "np_take ?ud (rev sort_idx_disease) = Inr (map (\<lambda>i. ?ud ! i) (rev sort_idx_disease))"
    using pd by (rule np_take_permutation)
  have "set (map (\<lambda>i. ?uc ! i) (rev sort_idx_control) @ map (\<lambda>i. ?ud ! i) (rev sort_idx_disease))
        = set (control_clfs @ disease_clfs)"
    using set_take_permutation [OF pc] set_take_permutation [OF pd]
    by (simp add: set_np_unique del: set_rev rev_map)
  then have "np_union1d (map (\<lambda>i. ?uc ! i) (rev sort_idx_control))
                        (map (\<lambda>i. ?ud ! i) (rev sort_idx_disease))
             = np_unique (control_clfs @ disease_clfs)"
    unfolding np_union1d_def by (rule np_unique_cong)
  then show ?thesis
    by (simp add: merge_cases_def tc td Let_def)
qed

lemma sort_columns_result:
  assumes "index_permutation idx (length cols0)"
    and "merged_db_types b = cols0"
    and "control_counts b = map fc cols0" and "control_fracs b = map gc cols0"
    and "disease_counts b = map fd cols0" and "disease_fracs b = map gd cols0"
  shows "sort_columns b idx =
           Inr \<lparr> merged_db_types = map (\<lambda>i. cols0 ! i) (rev idx),
                 control_counts = map fc (map (\<lambda>i. cols0 ! i) (rev idx)),
                 control_fracs = map gc (map (\<lambda>i. cols0 ! i) (rev idx)),
                 disease_counts = map fd (map (\<lambda>i. cols0 ! i) (rev idx)),
                 disease_fracs = map gd (map (\<lambda>i. cols0 ! i) (rev idx)) \<rparr>"
proof -
  have p: "index_permutation (rev idx) (length cols0)"
    using assms(1) by (simp add: index_permutation_rev)
  have "np_take cols0 (rev idx) = Inr (map (\<lambda>i. cols0 ! i) (rev idx))"
    using p by (rule np_take_permutation)
  then show ?thesis
    unfolding sort_columns_def assms(2-6) np_take_map [OF p] by simp
qed

lemma non_zero_columns_result:
  assumes "merged_db_types b = cols"
    and "control_counts b = map fc cols" and "disease_counts b = map fd cols"
  shows "non_zero_columns b =
           Inr \<lparr> merged_db_types = filter (\<lambda>l. fc l \<noteq> 0 \<and> fd l \<noteq> 0) cols,
                 control_counts = map fc (filter (\<lambda>l. fc l \<noteq> 0 \<and> fd l \<noteq> 0) cols),
                 control_fracs =
                   map (\<lambda>c. np_div c (sum_list (map fc (filter (\<lambda>l. fc l \<noteq> 0 \<and> fd l \<noteq> 0) cols))))
                     (map fc (filter (\<lambda>l. fc l \<noteq> 0 \<and> fd l \<noteq> 0) cols)),
                 disease_counts = map fd (filter (\<lambda>l. fc l \<noteq> 0 \<and> fd l \<noteq> 0) cols),
                 disease_fracs =
                   map (\<lambda>c. np_div c (sum_list (map fd (filter (\<lambda>l. fc l \<noteq> 0 \<and> fd l \<noteq> 0) cols))))
                     (map fd (filter (\<lambda>l. fc l \<noteq> 0 \<and> fd l \<noteq> 0) cols)) \<rparr>"
proof -
  let ?P = "\<lambda>l. fc l \<noteq> 0 \<and> fd l \<noteq> 0"
  let ?keep = "filter (\<lambda>i. ?P (cols ! i)) [0..<length cols]"
  have keep: "keep_columns (map fc cols) (map fd cols) = ?keep"
    unfolding keep_columns_def by (rule filter_cong) auto
  have in_range: "\<forall>i \<in> set ?keep. i < length cols" by simp
  have sel: "map (\<lambda>i. cols ! i) ?keep = filter ?P cols" by (rule filter_by_index)
  have t1: "np_take cols ?keep = Inr (filter ?P cols)"
    using in_range sel by (simp add: np_take_def)
  have map_sel: "map (\<lambda>i. map f cols ! i) ?keep = map f (filter ?P cols)" for f :: "string \<Rightarrow> rat"
  proof -
    have "map (\<lambda>i. map f cols ! i) ?keep = map (\<lambda>i. f (cols ! i)) ?keep"
      by (rule map_cong) simp_all
    also have "\<dots> = map f (map (\<lambda>i. cols ! i) ?keep)" by (simp add: comp_def)
    finally show ?thesis using sel by simp
  qed
  have t2: "np_take (map f cols) ?keep = Inr (map f (filter ?P cols))" for f :: "string \<Rightarrow> rat"
    using in_range map_sel [of f] by (simp add: np_take_def)
  show ?thesis
    unfolding non_zero_columns_def assms keep Let_def t1 t2 by simp
qed

lemma grouped_bars_nonempty:
  assumes "index_permutation sort_idx_control (length (np_unique control_clfs))"
    and "index_permutation sort_idx_disease (length (np_unique disease_clfs))"
    and "index_permutation labels_sort_idx (length (np_unique (control_clfs @ disease_clfs)))"
    and "control_clfs \<noteq> []" and "disease_clfs \<noteq> []"
  defines "cols \<equiv> map (\<lambda>i. np_unique (control_clfs @ disease_clfs) ! i) (rev labels_sort_idx)"
  defines "cols2 \<equiv> filter (\<lambda>l. label_count control_clfs l \<noteq> 0 \<and> label_count disease_clfs l \<noteq> 0) cols"
  defines "cf \<equiv> \<lambda>l. label_count control_clfs l / of_nat (length control_clfs)"
  defines "df \<equiv> \<lambda>l. label_count disease_clfs l / of_nat (length disease_clfs)"
  defines "cf2 \<equiv> \<lambda>l. label_count control_clfs l / sum_list (map (label_count control_clfs) cols2)"
  defines "df2 \<equiv> \<lambda>l. label_count disease_clfs l / sum_list (map (label_count disease_clfs) cols2)"
  shows "grouped_bars control_clfs disease_clfs sort_idx_control sort_idx_disease labels_sort_idx =
    Inr \<lparr> bars = \<lparr> merged_db_types = cols,
                   control_counts = map (label_count control_clfs) cols,
                   control_fracs = map (\<lambda>l. Finite (cf l)) cols,
                   disease_counts = map (label_count disease_clfs) cols,
                   disease_fracs = map (\<lambda>l. Finite (df l)) cols \<rparr>,
          pvals = map (\<lambda>l. (\<lfloor>1000 * cf l\<rfloor>, \<lfloor>1000 * cf l\<rfloor> + \<lfloor>1000 * df l\<rfloor>, 1/2)) cols,
          bars_non_zero = \<lparr> merged_db_types = cols2,
                   control_counts = map (label_count control_clfs) cols2,
                   control_fracs = map (\<lambda>l. Finite (cf2 l)) cols2,
                   disease_counts = map (label_count disease_clfs) cols2,
                   disease_fracs = map (\<lambda>l. Finite (df2 l)) cols2 \<rparr>,
          pvals_non_zero =
            map (\<lambda>l. (\<lfloor>1000 * cf2 l\<rfloor>, \<lfloor>1000 * cf2 l\<rfloor> + \<lfloor>1000 * df2 l\<rfloor>, 1/2)) cols2 \<rparr>"
proof -
  let ?fc = "label_count control_clfs" and ?fd = "label_count disease_clfs"
  let ?nc = "of_nat (length control_clfs) :: rat" and ?nd = "of_nat (length disease_clfs) :: rat"
  have nz: "?nc \<noteq> 0" "?nd \<noteq> 0" using assms(4,5) by simp_all
  have m: "merge_cases control_clfs disease_clfs sort_idx_control sort_idx_disease =
    Inr \<lparr> merged_db_types = np_unique (control_clfs @ disease_clfs),
          control_counts = map ?fc (np_unique (control_clfs @ disease_clfs)),
          control_fracs = map (\<lambda>l. Finite (cf l)) (np_unique (control_clfs @ disease_clfs)),
          disease_counts = map ?fd (np_unique (control_clfs @ disease_clfs)),
          disease_fracs = map (\<lambda>l. Finite (df l)) (np_unique (control_clfs @ disease_clfs)) \<rparr>"
    unfolding merge_cases_result [OF assms(1,2)] cf_def df_def
    using nz by (simp add: np_div_def)
  let ?b = "\<lparr> merged_db_types = cols, control_counts = map ?fc cols,
              control_fracs = map (\<lambda>l. Finite (cf l)) cols,
              disease_counts = map ?fd cols,
              disease_fracs = map (\<lambda>l. Finite (df l)) cols \<rparr>"
  have s: "sort_columns \<lparr> merged_db_types = np_unique (control_clfs @ disease_clfs),
          control_counts = map ?fc (np_unique (control_clfs @ disease_clfs)),
          control_fracs = map (\<lambda>l. Finite (cf l)) (np_unique (control_clfs @ disease_clfs)),
          disease_counts = map ?fd (np_unique (control_clfs @ disease_clfs)),
          disease_fracs = map (\<lambda>l. Finite (df l)) (np_unique (control_clfs @ disease_clfs)) \<rparr>
          labels_sort_idx = Inr ?b"
    unfolding cols_def by (rule sort_columns_result [OF assms(3)]) simp_all
  have p1: "pval_loop (zip (control_fracs ?b) (disease_fracs ?b)) =
      Inr (map (\<lambda>l. (\<lfloor>1000 * cf l\<rfloor>, \<lfloor>1000 * cf l\<rfloor> + \<lfloor>1000 * df l\<rfloor>, 1/2)) cols)"
    by (simp add: pval_loop_finite)
  have tc: "cols2 \<noteq> [] \<Longrightarrow> sum_list (map ?fc cols2) \<noteq> 0"
  proof -
    assume "cols2 \<noteq> []"
    then obtain l where "l \<in> set cols2" by (cases cols2) auto
    moreover from this have "?fc l \<noteq> 0" by (simp add: cols2_def)
    ultimately show ?thesis by (rule label_count_pos_sum)
  qed
  have td: "cols2 \<noteq> [] \<Longrightarrow> sum_list (map ?fd cols2) \<noteq> 0"
  proof -
    assume "cols2 \<noteq> []"
    then obtain l where "l \<in> set cols2" by (cases cols2) auto
    moreover from this have "?fd l \<noteq> 0" by (simp add: cols2_def)
    ultimately show ?thesis by (rule label_count_pos_sum)
  qed
  let ?b2 = "\<lparr> merged_db_types = cols2, control_counts = map ?fc cols2,
               control_fracs = map (\<lambda>l. Finite (cf2 l)) cols2,
               disease_counts = map ?fd cols2,
               disease_fracs = map (\<lambda>l. Finite (df2 l)) cols2 \<rparr>"
  have fr_c: "map (\<lambda>c. np_div c (sum_list (map ?fc cols2))) (map ?fc cols2)
              = map (\<lambda>l. Finite (cf2 l)) cols2"
    unfolding cf2_def by (rule np_div_fracs [OF tc])
  have fr_d: "map (\<lambda>c. np_div c (sum_list (map ?fd cols2))) (map ?fd cols2)
              = map (\<lambda>l. Finite (df2 l)) cols2"
    unfolding df2_def by (rule np_div_fracs [OF td])
  have "non_zero_columns ?b =
           Inr \<lparr> merged_db_types = filter (\<lambda>l. ?fc l \<noteq> 0 \<and> ?fd l \<noteq> 0) cols,
                 control_counts = map ?fc (filter (\<lambda>l. ?fc l \<noteq> 0 \<and> ?fd l \<noteq> 0) cols),
                 control_fracs =
                   map (\<lambda>c. np_div c (sum_list (map ?fc (filter (\<lambda>l. ?fc l \<noteq> 0 \<and> ?fd l \<noteq> 0) cols))))
                     (map ?fc (filter (\<lambda>l. ?fc l \<noteq> 0 \<and> ?fd l \<noteq> 0) cols)),
                 disease_counts = map ?fd (filter (\<lambda>l. ?fc l \<noteq> 0 \<and> ?fd l \<noteq> 0) cols),
                 disease_fracs =
                   map (\<lambda>c. np_div c (sum_list (map ?fd (filter (\<lambda>l. ?fc l \<noteq> 0 \<and> ?fd l \<noteq> 0) cols))))
                     (map ?fd (filter (\<lambda>l. ?fc l \<noteq> 0 \<and> ?fd l \<noteq> 0) cols)) \<rparr>"
    by (rule non_zero_columns_result) simp_all
  then have n: "non_zero_columns ?b = Inr ?b2"
    unfolding cols2_def [symmetric] fr_c fr_d .
  have p2: "pval_loop (zip (control_fracs ?b2) (disease_fracs ?b2)) =
      Inr (map (\<lambda>l. (\<lfloor>1000 * cf2 l\<rfloor>, \<lfloor>1000 * cf2 l\<rfloor> + \<lfloor>1000 * df2 l\<rfloor>, 1/2)) cols2)"
    by (simp add: pval_loop_finite)
  show ?thesis
    unfolding grouped_bars_def m by (simp only: sum.case s p1 n p2)
qed

lemma grouped_bars_one_empty:
  assumes "index_permutation sort_idx_control (length (np_unique control_clfs))"
    and "index_permutation sort_idx_disease (length (np_unique disease_clfs))"
    and "index_permutation labels_sort_idx (length (np_unique (control_clfs @ disease_clfs)))"
    and "(control_clfs = [] \<and> disease_clfs \<noteq> []) \<or> (control_clfs \<noteq> [] \<and> disease_clfs = [])"
  shows "grouped_bars control_clfs disease_clfs sort_idx_control sort_idx_disease labels_sort_idx
           = Inl ValueError"
proof -
  let ?fc = "label_count control_clfs" and ?fd = "label_count disease_clfs"
  let ?nc = "of_nat (length control_clfs) :: rat" and ?nd = "of_nat (length disease_clfs) :: rat"
  let ?u = "np_unique (control_clfs @ disease_clfs)"
  define cols where "cols = map (\<lambda>i. ?u ! i) (rev labels_sort_idx)"
  let ?m = "\<lparr> merged_db_types = ?u,
          control_counts = map ?fc ?u,
          control_fracs = map (\<lambda>l. np_div (?fc l) ?nc) ?u,
          disease_counts = map ?fd ?u,
          disease_fracs = map (\<lambda>l. np_div (?fd l) ?nd) ?u \<rparr>"
  let ?b = "\<lparr> merged_db_types = cols, control_counts = map ?fc cols,
              control_fracs = map (\<lambda>l. np_div (?fc l) ?nc) cols,
              disease_counts = map ?fd cols,
              disease_fracs = map (\<lambda>l. np_div (?fd l) ?nd) cols \<rparr>"
  have m: "merge_cases control_clfs disease_clfs sort_idx_control sort_idx_disease = Inr ?m"
    unfolding merge_cases_result [OF assms(1,2)] by simp
  have s: "sort_columns ?m labels_sort_idx = Inr ?b"
    unfolding cols_def by (rule sort_columns_result [OF assms(3)]) simp_all
  have "set cols = set (control_clfs @ disease_clfs)"
    unfolding cols_def by (rule columns_props(2) [OF assms(3)])
  then have ne: "cols \<noteq> []" using assms(4) by auto
  have p1: "pval_loop (zip (control_fracs ?b) (disease_fracs ?b)) = Inl ValueError"
    using assms(4)
  proof
    assume a: "control_clfs = [] \<and> disease_clfs \<noteq> []"
    then have "map (\<lambda>l. np_div (?fc l) ?nc) cols = map (\<lambda>l. NaN) cols"
      by (simp add: label_count_def np_div_def)
    then show ?thesis
      by (simp only: bar_data.select_convs pval_loop_nan_left [OF ne])
  next
    assume a: "control_clfs \<noteq> [] \<and> disease_clfs = []"
    then have "map (\<lambda>l. np_div (?fd l) ?nd) cols = map (\<lambda>l. NaN) cols"
      by (simp add: label_count_def np_div_def)
    moreover have "map (\<lambda>l. np_div (?fc l) ?nc) cols = map (\<lambda>l. Finite (?fc l / ?nc)) cols"
      using a by (simp add: np_div_def)
    ultimately show ?thesis
      by (simp only: bar_data.select_convs pval_loop_nan_right [OF ne])
  qed
  show ?thesis
    unfolding grouped_bars_def m by (simp only: sum.case s p1)
qed

lemma grouped_bars_both_empty:
  "grouped_bars [] [] [] [] [] =
     Inr \<lparr> bars = \<lparr> merged_db_types = [], control_counts = [], control_fracs = [],
                     disease_counts = [], disease_fracs = [] \<rparr>,
           pvals = [],
           bars_non_zero = \<lparr> merged_db_types = [], control_counts = [], control_fracs = [],
                     disease_counts = [], disease_fracs = [] \<rparr>,
           pvals_non_zero = [] \<rparr>"
  by (simp add: grouped_bars_def merge_cases_def sort_columns_def non_zero_columns_def
      np_take_def np_unique_def np_union1d_def keep_columns_def)

lemmas eval_defs =
  make_classification_histograms_def coarse_clfs_def coarse_step_def
  grouped_bars_def merge_cases_def sort_columns_def non_zero_columns_def
  np_take_def np_unique_def np_union1d_def keep_columns_def label_count_def np_div_def
  pval_args_def math_floor_def float_times_def index_permutation_def np_sum_def upt_rec

text \<open>
  Claim C6.  For two non-empty coarse lists the run reaches both p-value loops.  The
  columns are the distinct labels of the two lists; for each column the arguments of
  \<open>binom_test\<close> are \<open>floor(1000 * control_fraction)\<close> successes out of that number plus
  \<open>floor(1000 * disease_fraction)\<close> trials, with \<open>p = 0.5\<close>, where the fractions are
  the counts divided by the length of the list in the first table and by the sum of the
  kept counts in the table without zero columns.  The call names no alternative, so the
  test is SciPy's default, the two-sided one.  At the fractions 0.667 and 0.333 the
  arguments are 667 successes out of 1000 trials.  Fractions are exact rationals in the
  model.
\<close>

theorem binomial_test_inputs:
  assumes "index_permutation sort_idx_control (length (np_unique control_clfs))"
    and "index_permutation sort_idx_disease (length (np_unique disease_clfs))"
    and "index_permutation labels_sort_idx (length (np_unique (control_clfs @ disease_clfs)))"
    and "control_clfs \<noteq> []" and "disease_clfs \<noteq> []"
  shows "\<exists>r. grouped_bars control_clfs disease_clfs sort_idx_control sort_idx_disease
                labels_sort_idx = Inr r \<and>
           distinct (merged_db_types (bars r)) \<and>
           set (merged_db_types (bars r)) = set control_clfs \<union> set disease_clfs \<and>
           control_fracs (bars r) =
             map (\<lambda>l. Finite (of_nat (count_list control_clfs l) / of_nat (length control_clfs)))
               (merged_db_types (bars r)) \<and>
           disease_fracs (bars r) =
             map (\<lambda>l. Finite (of_nat (count_list disease_clfs l) / of_nat (length disease_clfs)))
               (merged_db_types (bars r)) \<and>
           pvals r =
             map (\<lambda>l. (\<lfloor>1000 * (of_nat (count_list control_clfs l) / of_nat (length control_clfs) :: rat)\<rfloor>,
                       \<lfloor>1000 * (of_nat (count_list control_clfs l) / of_nat (length control_clfs) :: rat)\<rfloor>
                         + \<lfloor>1000 * (of_nat (count_list disease_clfs l) / of_nat (length disease_clfs) :: rat)\<rfloor>,
                       1/2))
               (merged_db_types (bars r)) \<and>
           control_fracs (bars_non_zero r) =
             map (\<lambda>l. Finite (of_nat (count_list control_clfs l)
                                / sum_list (control_counts (bars_non_zero r))))
               (merged_db_types (bars_non_zero r)) \<and>
           disease_fracs (bars_non_zero r) =
             map (\<lambda>l. Finite (of_nat (count_list disease_clfs l)
                                / sum_list (disease_counts (bars_non_zero r))))
               (merged_db_types (bars_non_zero r)) \<and>
           pvals_non_zero r =
             map (\<lambda>l. (\<lfloor>1000 * (of_nat (count_list control_clfs l)
                                      / sum_list (control_counts (bars_non_zero r)))\<rfloor>,
                       \<lfloor>1000 * (of_nat (count_list control_clfs l)
                                      / sum_list (control_counts (bars_non_zero r)))\<rfloor>
                         + \<lfloor>1000 * (of_nat (count_list disease_clfs l)
                                          / sum_list (disease_counts (bars_non_zero r)))\<rfloor>,
                       1/2))
               (merged_db_types (bars_non_zero r)) \<and>
           pval_args (Finite (667/1000)) (Finite (333/1000)) = Inr (667, 1000, 1/2)"
proof -
  have cols: "distinct (map (\<lambda>i. np_unique (control_clfs @ disease_clfs) ! i) (rev labels_sort_idx))"
    "set (map (\<lambda>i. np_unique (control_clfs @ disease_clfs) ! i) (rev labels_sort_idx))
       = set control_clfs \<union> set disease_clfs"
    using columns_props [OF assms(3)] by simp_all
  have eg: "pval_args (Finite (667/1000)) (Finite (333/1000)) = Inr (667, 1000, 1/2)"
    by (simp add: pval_args_def math_floor_def float_times_def)
  show ?thesis
    unfolding grouped_bars_nonempty [OF assms] label_count_eq [symmetric]
    using cols eg by simp
qed

theorem binomial_test_inputs_witness:
  "index_permutation [1, 0] (length (np_unique [''X'', ''X'', ''Y''])) \<and>
   index_permutation [0, 1] (length (np_unique [''X'', ''Y'', ''Y''])) \<and>
   index_permutation [1, 0] (length (np_unique ([''X'', ''X'', ''Y''] @ [''X'', ''Y'', ''Y'']))) \<and>
   make_classification_histograms
     [(''control_3m'', [''X'', ''X'', ''Y'']), (''disease_3m'', [''X'', ''Y'', ''Y''])]
     [1, 0] [0, 1] [1, 0]
   = Inr \<lparr> bars = \<lparr> merged_db_types = [''X'', ''Y''], control_counts = [2, 1],
                     control_fracs = [Finite (2/3), Finite (1/3)],
                     disease_counts = [1, 2],
                     disease_fracs = [Finite (1/3), Finite (2/3)] \<rparr>,
           pvals = [(666, 999, 1/2), (333, 999, 1/2)],
           bars_non_zero = \<lparr> merged_db_types = [''X'', ''Y''], control_counts = [2, 1],
                     control_fracs = [Finite (2/3), Finite (1/3)],
                     disease_counts = [1, 2],
                     disease_fracs = [Finite (1/3), Finite (2/3)] \<rparr>,
           pvals_non_zero = [(666, 999, 1/2), (333, 999, 1/2)] \<rparr>"
proof -
  have h1: "index_permutation [1, 0] (length (np_unique [''X'', ''X'', ''Y'']))"
    and h2: "index_permutation [0, 1] (length (np_unique [''X'', ''Y'', ''Y'']))"
    and h3: "index_permutation [1, 0] (length (np_unique ([''X'', ''X'', ''Y''] @ [''X'', ''Y'', ''Y''])))"
    by (simp_all add: index_permutation_def np_unique_def upt_rec)
  have h4: "[''X'', ''X'', ''Y''] \<noteq> []" and h5: "[''X'', ''Y'', ''Y''] \<noteq> []" by simp_all
  have "\<lfloor>2000 / 3 :: rat\<rfloor> = 666" by (rule floor_unique) simp_all
  moreover have "\<lfloor>1000 / 3 :: rat\<rfloor> = 333" by (rule floor_unique) simp_all
  moreover note binomial_test_inputs [OF h1 h2 h3 h4 h5]
  ultimately show ?thesis using h1 h2 h3 by (simp add: eval_defs)
qed




text \<open>
  Claim C8, as the program has it.  The divisions have no guard.  When exactly one of the
  two coarse lists is empty, the fractions of that group are \<open>nan\<close> and the first
  p-value loop raises \<open>ValueError\<close> at \<open>math.floor\<close>.  When both lists are empty or
  both are non-empty the run returns; a zero divisor after the removal of zero columns
  arises only when no column is kept, and then the fraction arrays and the list of tests
  are empty.
\<close>

theorem division_by_zero_not_guarded:
  assumes "index_permutation sort_idx_control (length (np_unique control_clfs))"
    and "index_permutation sort_idx_disease (length (np_unique disease_clfs))"
    and "index_permutation labels_sort_idx (length (np_unique (control_clfs @ disease_clfs)))"
  shows "((control_clfs = [] \<and> disease_clfs \<noteq> []) \<or> (control_clfs \<noteq> [] \<and> disease_clfs = []) \<longrightarrow>
            grouped_bars control_clfs disease_clfs sort_idx_control sort_idx_disease
              labels_sort_idx = Inl ValueError) \<and>
         ((control_clfs = [] \<and> disease_clfs = []) \<or> (control_clfs \<noteq> [] \<and> disease_clfs \<noteq> []) \<longrightarrow>
            (\<exists>r. grouped_bars control_clfs disease_clfs sort_idx_control sort_idx_disease
                    labels_sort_idx = Inr r \<and>
                 (set control_clfs \<inter> set disease_clfs = {} \<longrightarrow>
                    control_fracs (bars_non_zero r) = [] \<and> disease_fracs (bars_non_zero r) = [] \<and>
                    pvals_non_zero r = [])))"
proof -
  have crash: "grouped_bars control_clfs disease_clfs sort_idx_control sort_idx_disease
              labels_sort_idx = Inl ValueError"
    if "(control_clfs = [] \<and> disease_clfs \<noteq> []) \<or> (control_clfs \<noteq> [] \<and> disease_clfs = [])"
    using assms that by (rule grouped_bars_one_empty)
  have both_empty: "\<exists>r. grouped_bars control_clfs disease_clfs sort_idx_control sort_idx_disease
                    labels_sort_idx = Inr r \<and>
                 (set control_clfs \<inter> set disease_clfs = {} \<longrightarrow>
                    control_fracs (bars_non_zero r) = [] \<and> disease_fracs (bars_non_zero r) = [] \<and>
                    pvals_non_zero r = [])"
    if e: "control_clfs = [] \<and> disease_clfs = []"
  proof -
    have "sort_idx_control = []" "sort_idx_disease = []" "labels_sort_idx = []"
      using assms e by (simp_all add: np_unique_def index_permutation_0)
    then show ?thesis using e by (simp add: grouped_bars_both_empty)
  qed
  have ok: "\<exists>r. grouped_bars control_clfs disease_clfs sort_idx_control sort_idx_disease
                    labels_sort_idx = Inr r \<and>
                 (set control_clfs \<inter> set disease_clfs = {} \<longrightarrow>
                    control_fracs (bars_non_zero r) = [] \<and> disease_fracs (bars_non_zero r) = [] \<and>
                    pvals_non_zero r = [])"
    if ne: "control_clfs \<noteq> [] \<and> disease_clfs \<noteq> []"
  proof -
    have ne1: "control_clfs \<noteq> []" and ne2: "disease_clfs \<noteq> []" using ne by simp_all
    have st: "set (map (\<lambda>i. np_unique (control_clfs @ disease_clfs) ! i) (rev labels_sort_idx))
                = set (control_clfs @ disease_clfs)"
      by (rule columns_props(2) [OF assms(3)])
    show ?thesis
      unfolding grouped_bars_nonempty [OF assms ne1 ne2]
      using shared_label_columns [OF st] by simp
  qed
  from crash both_empty ok show ?thesis by blast
qed

theorem division_by_zero_not_guarded_witness:
  "index_permutation [0, 1] (length (np_unique [''X'', ''Y''])) \<and>
   index_permutation [] (length (np_unique ([] :: string list))) \<and>
   index_permutation [0, 1] (length (np_unique ([''X'', ''Y''] @ []))) \<and>
   make_classification_histograms [(''control_3m'', [''X'', ''Y''])] [0, 1] [] [0, 1]
     = Inl ValueError"
proof -
  have h1: "index_permutation [0, 1] (length (np_unique [''X'', ''Y'']))"
    and h2: "index_permutation [] (length (np_unique ([] :: string list)))"
    and h3: "index_permutation [0, 1] (length (np_unique ([''X'', ''Y''] @ [])))"
    by (simp_all add: index_permutation_def np_unique_def upt_rec)
  from division_by_zero_not_guarded [OF h1 h2 h3] h1 h2 h3 show ?thesis
    by (simp add: make_classification_histograms_def coarse_clfs_def coarse_step_def)
qed

text \<open>
  Claim C8 as stated says that an empty coarse list does not make the run fail.  With no
  control group and one disease classification the run raises \<open>ValueError\<close>.
\<close>

theorem empty_group_counterexample:
  "make_classification_histograms [(''disease_3m'', [''X''])] [] [0] [0] = Inl ValueError"
  by (simp add: eval_defs)

end
